theory Spec2Isabelle
  imports Main "HOL-Library.Word"
begin

section \<open>Common data of the local node\<close>

text \<open>
  The embedding follows the debug build of the sources (\<^verbatim>\<open>NDEBUG\<close> not defined):
  a failed \<^verbatim>\<open>EQASSERT\<close>, \<^verbatim>\<open>EQCHECK\<close>, \<^verbatim>\<open>LBASSERT\<close> or \<^verbatim>\<open>LBCHECK\<close> aborts, which is
  the result \<open>Inl AssertFailed\<close>; calling a method through a null pointer is
  \<open>Inl NullDeref\<close>.
\<close>

datatype error = AssertFailed | NullDeref

type_synonym NodeID = "128 word"
type_synonym NodePtr = nat
type_synonym ConnectionPtr = nat

text \<open>The thread that executes a call; the handlers assert the thread they run in.\<close>

datatype thread = ReceiverThread | CommandThread | ApplicationThread

datatype Packet =
    NodeAcquireSendTokenReplyPacket "32 word"
  | NodeReleaseSendTokenPacket
  | NodeStopPacket
  | NodeConnectReplyPacket (replyNodeID: NodeID) (replyRequestID: "32 word")
      (replyNodeType: "32 word") (replyNodeData: string)
  | NodeConnectAckPacket

text \<open>
  A received command: its identity (for the reference count), the sending node
  (\<^verbatim>\<open>command.getNode()\<close>, null during the handshake) and the fields of its packet that
  the handlers read (\<^verbatim>\<open>packet->requestID\<close>, \<^verbatim>\<open>packet->nodeID\<close>, \<^verbatim>\<open>packet->nodeType\<close>,
  \<^verbatim>\<open>packet->nodeData\<close>); a handler ignores the fields its packet type does not carry.
\<close>

record Command =
  cmdID :: nat
  getNode :: "NodePtr option"
  requestID :: "32 word"
  packetNodeID :: NodeID
  packetNodeType :: "32 word"
  packetNodeData :: string

section \<open>Send token (localNode.cpp, \<^verbatim>\<open>_cmdAcquireSendToken\<close>, \<^verbatim>\<open>_cmdReleaseSendToken\<close>)\<close>

text \<open>
  The part of \<^verbatim>\<open>detail::LocalNode\<close> the token handlers touch, with the packets sent so
  far (\<^verbatim>\<open>node->send\<close>) and the reference count of every command.
\<close>

record TokenState =
  sendToken :: bool
  lastSendToken :: "64 word"
  sendTokenQueue :: "Command list"
  sent :: "(NodePtr \<times> Packet) list"
  refCount :: "nat \<Rightarrow> nat"

text \<open>
  What a handler reads from outside: the executing thread, \<^verbatim>\<open>getTime64()\<close>,
  \<^verbatim>\<open>Global::getTimeout()\<close> and the constant \<^verbatim>\<open>LB_TIMEOUT_INDEFINITE\<close>, whose
  definition is not part of the sources and is therefore a parameter.
\<close>

record TokenEnv =
  current :: thread
  getTime64 :: "64 word"
  getTimeout :: "32 word"
  LB_TIMEOUT_INDEFINITE :: "32 word"

definition retain :: "Command \<Rightarrow> TokenState \<Rightarrow> TokenState" where
  "retain c s = s\<lparr>refCount := (refCount s)(cmdID c := Suc (refCount s (cmdID c)))\<rparr>"

definition release :: "Command \<Rightarrow> TokenState \<Rightarrow> TokenState" where
  "release c s = s\<lparr>refCount := (refCount s)(cmdID c := refCount s (cmdID c) - 1)\<rparr>"

text \<open>
  \<^verbatim>\<open>command.getNode()->send( reply )\<close> with \<^verbatim>\<open>reply\<close> built from the request packet:
  the reply carries the request id of the request.
\<close>

definition sendTokenReply :: "Command \<Rightarrow> TokenState \<Rightarrow> error + TokenState" where
  "sendTokenReply c s =
     (case getNode c of
        None \<Rightarrow> Inl NullDeref
      | Some n \<Rightarrow> Inr (s\<lparr>sent := sent s @ [(n, NodeAcquireSendTokenReplyPacket (requestID c))]\<rparr>))"

text \<open>
  \<^verbatim>\<open>if( !_impl->sendToken == 0 )\<close>: the negation binds tighter than the comparison, so
  the condition is \<open>(\<not> sendToken) = False\<close>, which is true exactly when \<open>sendToken\<close>
  is true. The time difference is computed in unsigned 64-bit arithmetic and compared
  with the 32-bit timeout.
\<close>

definition cmdAcquireSendToken :: "TokenEnv \<Rightarrow> Command \<Rightarrow> TokenState \<Rightarrow> error + (bool \<times> TokenState)" where
  "cmdAcquireSendToken env command s =
     (if current env \<noteq> CommandThread then Inl AssertFailed
      else if ((\<not> sendToken s) = False) \<and>
              (getTimeout env = LB_TIMEOUT_INDEFINITE env \<or>
               unat (getTime64 env - lastSendToken s) \<le> unat (getTimeout env))
      then Inr (True, (retain command s)\<lparr>sendTokenQueue := sendTokenQueue s @ [command]\<rparr>)
      else
        (let s1 = (if (\<not> sendToken s) = False then s\<lparr>sendTokenQueue := []\<rparr> else s);
             s2 = s1\<lparr>sendToken := False\<rparr>
         in case sendTokenReply command s2 of
              Inl e \<Rightarrow> Inl e
            | Inr s3 \<Rightarrow> Inr (True, s3)))"

definition cmdReleaseSendToken :: "TokenEnv \<Rightarrow> TokenState \<Rightarrow> error + (bool \<times> TokenState)" where
  "cmdReleaseSendToken env s =
     (if current env \<noteq> CommandThread then Inl AssertFailed
      else
        (let s1 = s\<lparr>lastSendToken := getTime64 env\<rparr>
         in if sendToken s1 then Inr (True, s1)
            else case sendTokenQueue s1 of
                   [] \<Rightarrow> Inr (True, s1\<lparr>sendToken := True\<rparr>)
                 | request # rest \<Rightarrow>
                     (case sendTokenReply request (s1\<lparr>sendTokenQueue := rest\<rparr>) of
                        Inl e \<Rightarrow> Inl e
                      | Inr s2 \<Rightarrow> Inr (True, release request s2))))"


section \<open>The public \<^verbatim>\<open>LocalNode::releaseSendToken\<close>\<close>

text \<open>
  The token handle is a \<^verbatim>\<open>NodePtr\<close> passed by reference; the call returns the value the
  caller's variable holds afterwards and the packets sent to nodes.
\<close>

definition releaseSendToken ::
  "thread \<Rightarrow> NodePtr option \<Rightarrow> (NodePtr \<times> Packet) list \<Rightarrow>
     error + (NodePtr option \<times> (NodePtr \<times> Packet) list)" where
  "releaseSendToken cur node out =
     (if cur = ReceiverThread then Inl AssertFailed
      else case node of
             None \<Rightarrow> Inr (node, out)
           | Some n \<Rightarrow> Inr (None, out @ [(n, NodeReleaseSendTokenPacket)]))"

section \<open>Nodes, connections and the maps of the local node\<close>

datatype State = STATE_CLOSED | STATE_CONNECTED | STATE_LISTENING | STATE_CLOSING

record Node =
  getNodeID :: NodeID
  state :: State
  outgoing :: "ConnectionPtr option"
  getType :: "32 word"
  outMulticast :: "ConnectionPtr option"
  multicasts :: "(ConnectionPtr \<times> NodePtr) list"

text \<open>
  Modelled from the spec: \<^verbatim>\<open>Node::isConnected\<close>, declared in a header outside the
  sources. The spec gives the four states of a node; which of them count as connected
  is taken from the test that \<^verbatim>\<open>_connect( NodePtr )\<close> makes in its place:
  \<^verbatim>\<open>node->_state == STATE_CONNECTED || node->_state == STATE_LISTENING\<close>.
\<close>

definition isConnected :: "Node \<Rightarrow> bool" where
  "isConnected n = (state n = STATE_CONNECTED \<or> state n = STATE_LISTENING)"

text \<open>
  Of a connection (a class outside the sources) the model keeps what
  \<^verbatim>\<open>_removeConnection\<close> reads: its state and the buffer of the pending \<^verbatim>\<open>recvNB\<close> with
  its size in bytes.
\<close>

datatype ConnectionState = ConnClosed | ConnConnecting | ConnConnected | ConnListening

record Connection =
  connectionState :: ConnectionState
  recvData :: "nat option"

text \<open>
  The local node: the node objects (\<open>this\<close> among them), the fields of
  \<^verbatim>\<open>detail::LocalNode\<close> used by the connection handlers, the registered requests with
  their data pointer, and what the handlers emit: the requests served with a boolean,
  the packets sent on a connection and the packets sent to a node.
\<close>

record LocalNode =
  this :: NodePtr
  heap :: "NodePtr \<rightharpoonup> Node"
  nextNode :: NodePtr
  connections :: "ConnectionPtr \<Rightarrow> Connection"
  connectionNodes :: "ConnectionPtr \<rightharpoonup> NodePtr"
  nodes :: "NodeID \<rightharpoonup> NodePtr"
  incoming :: "ConnectionPtr list"
  requests :: "(32 word \<times> NodePtr option) list"
  served :: "(32 word \<times> bool) list"
  connectionSent :: "(ConnectionPtr \<times> Packet) list"
  nodeSent :: "(NodePtr \<times> Packet) list"

text \<open>
  The operations and constants the handlers take from classes and headers outside the
  sources: \<^verbatim>\<open>createNode\<close> (the content of a newly created node), \<^verbatim>\<open>Node::deserialize\<close>
  (success, the data left over, the node read), \<^verbatim>\<open>Node::serialize\<close>,
  \<^verbatim>\<open>PipeConnection::acceptSync\<close> (the other end of a pipe), the join of the receiver
  thread (whether it was joined and the state the receiver and command threads leave),
  and the constants \<^verbatim>\<open>LB_UNDEFINED_UINT32\<close> and \<^verbatim>\<open>NODETYPE_CO_INVALID\<close>. The multicast
  election \<^verbatim>\<open>_connectMulticast\<close>, which the claims do not concern, is a parameter as
  well.
\<close>

record NodeOps =
  createNode :: "32 word \<Rightarrow> Node"
  deserialize :: "string \<Rightarrow> Node \<Rightarrow> bool \<times> string \<times> Node"
  serialize :: "Node \<Rightarrow> string"
  acceptSync :: "ConnectionPtr \<Rightarrow> ConnectionPtr"
  receiverThreadJoin :: "LocalNode \<Rightarrow> bool \<times> LocalNode"
  connectMulticast :: "NodePtr \<Rightarrow> LocalNode \<Rightarrow> error + LocalNode"
  LB_UNDEFINED_UINT32 :: "32 word"
  NODETYPE_CO_INVALID :: "32 word"

definition ZERO :: NodeID where
  "ZERO = 0"

text \<open>\<^verbatim>\<open>_removeConnection\<close>, with its two assertions on the pending receive buffer.\<close>

definition removeConnection :: "ConnectionPtr \<Rightarrow> LocalNode \<Rightarrow> error + LocalNode" where
  "removeConnection connection ln =
     (let ln1 = ln\<lparr>incoming := remove1 connection (incoming ln)\<rparr>;
          c = connections ln1 connection
      in if \<not> (connectionState c \<noteq> ConnConnected \<or> recvData c \<noteq> None) then Inl AssertFailed
         else if \<not> (recvData c = None \<or> recvData c = Some 8) then Inl AssertFailed
         else Inr (ln1\<lparr>connections := (connections ln1)
                     (connection := \<lparr>connectionState = ConnClosed, recvData = None\<rparr>)\<rparr>))"

text \<open>\<^verbatim>\<open>serveRequest( requestID, value )\<close> with a boolean value.\<close>

definition serveRequest :: "32 word \<Rightarrow> bool \<Rightarrow> LocalNode \<Rightarrow> LocalNode" where
  "serveRequest r v ln = ln\<lparr>served := served ln @ [(r, v)]\<rparr>"

text \<open>
  Modelled from the spec: the constructor \<^verbatim>\<open>NodeConnectReplyPacket( packet )\<close>, declared
  in \<^verbatim>\<open>nodePackets.h\<close> outside the sources. The reply answers the request of the
  connect packet and carries the node id ZERO until the handler stores its own id
  (``CONNECT_REPLY: peer's nodeID (ZERO on refusal), nodeType, serialized info'').
\<close>

definition newNodeConnectReplyPacket :: "NodeOps \<Rightarrow> Command \<Rightarrow> Packet" where
  "newNodeConnectReplyPacket ops command =
     NodeConnectReplyPacket ZERO (requestID command) (NODETYPE_CO_INVALID ops) []"

text \<open>
  \<^verbatim>\<open>_cmdConnect\<close>; \<open>connection\<close> is \<^verbatim>\<open>_impl->incoming.getConnection()\<close>, the
  connection the command arrived on.
\<close>

definition cmdConnect ::
  "NodeOps \<Rightarrow> thread \<Rightarrow> ConnectionPtr \<Rightarrow> Command \<Rightarrow> LocalNode \<Rightarrow> error + (bool \<times> LocalNode)" where
  "cmdConnect ops cur connection command ln =
     (if getNode command \<noteq> None then Inl AssertFailed
      else if cur \<noteq> ReceiverThread then Inl AssertFailed
      else case heap ln (this ln) of
        None \<Rightarrow> Inl NullDeref
      | Some me \<Rightarrow>
          if \<not> (packetNodeID command \<noteq> getNodeID me) then Inl AssertFailed
          else if connectionNodes ln connection \<noteq> None then Inl AssertFailed
          else
            (let accept = (\<lambda>p remoteNode0 ln0.
                   (case deserialize ops (packetNodeData command) remoteNode0 of
                      (ok, rest, remoteNode1) \<Rightarrow>
                        if rest \<noteq> [] then Inl AssertFailed
                        else if getNodeID remoteNode1 \<noteq> packetNodeID command then Inl AssertFailed
                        else
                          (let remoteNode2 = remoteNode1\<lparr>outgoing := Some connection,
                                                         state := STATE_CONNECTED\<rparr>;
                               reply = NodeConnectReplyPacket (getNodeID me) (requestID command)
                                         (getType me) (serialize ops me)
                           in Inr (True, ln0\<lparr>heap := (heap ln0)(p \<mapsto> remoteNode2),
                                    connectionNodes := (connectionNodes ln0)(connection \<mapsto> p),
                                    nodes := (nodes ln0)(getNodeID remoteNode2 \<mapsto> p),
                                    connectionSent := connectionSent ln0 @ [(connection, reply)]\<rparr>))))
             in case nodes ln (packetNodeID command) of
                  None \<Rightarrow>
                    accept (nextNode ln) (createNode ops (packetNodeType command))
                      (ln\<lparr>nextNode := Suc (nextNode ln)\<rparr>)
                | Some p \<Rightarrow>
                    (case heap ln p of
                       None \<Rightarrow> Inl NullDeref
                     | Some remoteNode \<Rightarrow>
                         if isConnected remoteNode
                         then (case removeConnection connection
                                      (ln\<lparr>connectionSent := connectionSent ln @
                                           [(connection, newNodeConnectReplyPacket ops command)]\<rparr>) of
                                 Inl e \<Rightarrow> Inl e
                               | Inr ln1 \<Rightarrow> Inr (True, ln1))
                         else accept p remoteNode ln)))"

text \<open>
  \<^verbatim>\<open>_cmdConnectReply\<close>. The part from ``create and add node'' on, for the peer at \<open>p\<close>
  with content \<open>peer\<close>:
\<close>

definition connectReplyAccept ::
  "NodeOps \<Rightarrow> ConnectionPtr \<Rightarrow> Command \<Rightarrow> NodePtr \<Rightarrow> Node \<Rightarrow> LocalNode \<Rightarrow>
     error + (bool \<times> LocalNode)" where
  "connectReplyAccept ops connection command p peer ln =
     (if getType peer \<noteq> packetNodeType command then Inl AssertFailed
      else if state peer \<noteq> STATE_CLOSED then Inl AssertFailed
      else case deserialize ops (packetNodeData command) peer of
        (ok, rest, peer1) \<Rightarrow>
          if rest \<noteq> [] then Inl AssertFailed
          else if getNodeID peer1 \<noteq> packetNodeID command then Inl AssertFailed
          else
            (let peer2 = peer1\<lparr>outgoing := Some connection, state := STATE_CONNECTED\<rparr>;
                 ln1 = ln\<lparr>heap := (heap ln)(p \<mapsto> peer2),
                          connectionNodes := (connectionNodes ln)(connection \<mapsto> p),
                          nodes := (nodes ln)(getNodeID peer2 \<mapsto> p)\<rparr>;
                 ln2 = serveRequest (requestID command) True ln1;
                 ln3 = ln2\<lparr>nodeSent := nodeSent ln2 @ [(p, NodeConnectAckPacket)]\<rparr>
             in case connectMulticast ops p ln3 of
                  Inl e \<Rightarrow> Inl e
                | Inr ln4 \<Rightarrow> Inr (True, ln4)))"

text \<open>The simultaneous connect: the peer found in the node map is connected already.\<close>

definition connectReplySimultaneous ::
  "ConnectionPtr \<Rightarrow> Command \<Rightarrow> NodePtr \<Rightarrow> Node \<Rightarrow> LocalNode \<Rightarrow> error + (bool \<times> LocalNode)" where
  "connectReplySimultaneous connection command p peer ln =
     (case removeConnection connection ln of
        Inl e \<Rightarrow> Inl e
      | Inr ln1 \<Rightarrow>
          (let ln2 = ln1\<lparr>heap := (heap ln1)(p \<mapsto> peer\<lparr>state := STATE_CLOSED, outgoing := None\<rparr>)\<rparr>
           in case outgoing peer of
                None \<Rightarrow> Inl AssertFailed
              | Some actual \<Rightarrow>
                  if connectionNodes ln2 actual = None then Inl AssertFailed
                  else Inr (True, serveRequest (requestID command) False
                         (ln2\<lparr>connectionNodes := (connectionNodes ln2)(actual := None),
                              nodes := (nodes ln2)(packetNodeID command := None)\<rparr>))))"

definition cmdConnectReply ::
  "NodeOps \<Rightarrow> thread \<Rightarrow> ConnectionPtr \<Rightarrow> Command \<Rightarrow> LocalNode \<Rightarrow> error + (bool \<times> LocalNode)" where
  "cmdConnectReply ops cur connection command ln =
     (if getNode command \<noteq> None then Inl AssertFailed
      else if cur \<noteq> ReceiverThread then Inl AssertFailed
      else if connectionNodes ln connection \<noteq> None then Inl AssertFailed
      else if packetNodeID command = ZERO
      then (case removeConnection connection ln of
              Inl e \<Rightarrow> Inl e
            | Inr ln1 \<Rightarrow> Inr (True, serveRequest (requestID command) False ln1))
      else case nodes ln (packetNodeID command) of
        Some p \<Rightarrow>
          (case heap ln p of
             None \<Rightarrow> Inl NullDeref
           | Some peer \<Rightarrow>
               if isConnected peer then connectReplySimultaneous connection command p peer ln
               else connectReplyAccept ops connection command p peer ln)
      | None \<Rightarrow>
          if requestID command \<noteq> LB_UNDEFINED_UINT32 ops
          then (case map_of (requests ln) (requestID command) of
                  Some (Some p) \<Rightarrow>
                    (case heap ln p of
                       None \<Rightarrow> Inl NullDeref
                     | Some peer \<Rightarrow> connectReplyAccept ops connection command p peer ln)
                | _ \<Rightarrow> Inl AssertFailed)
          else connectReplyAccept ops connection command (nextNode ln)
                 (createNode ops (packetNodeType command)) (ln\<lparr>nextNode := Suc (nextNode ln)\<rparr>))"

section \<open>Closing the local node (\<^verbatim>\<open>LocalNode::close\<close>, \<^verbatim>\<open>_cleanup\<close>)\<close>

text \<open>One round of the loop of \<^verbatim>\<open>_cleanup\<close> over the connections that are still open.\<close>

definition cleanupStep :: "LocalNode \<Rightarrow> error + LocalNode" where
  "cleanupStep ln =
     (let connection = last (incoming ln)
      in case connectionNodes ln connection of
           None \<Rightarrow> removeConnection connection ln
         | Some p \<Rightarrow>
             (case heap ln p of
                None \<Rightarrow> Inl NullDeref
              | Some node \<Rightarrow>
                  removeConnection connection
                    (ln\<lparr>heap := (heap ln)(p \<mapsto> node\<lparr>state := STATE_CLOSED, outMulticast := None,
                                                      outgoing := None, multicasts := []\<rparr>),
                        connectionNodes := (connectionNodes ln)(connection := None),
                        nodes := (nodes ln)(getNodeID node := None)\<rparr>)))"

lemma cleanupStep_shrinks:
  assumes "cleanupStep ln = Inr ln'" and "incoming ln \<noteq> []"
  shows "length (incoming ln') < length (incoming ln)"
proof -
  have mem: "last (incoming ln) \<in> set (incoming ln)"
    using assms(2) by simp
  have rm: "removeConnection c l = Inr l' \<Longrightarrow> incoming l' = remove1 c (incoming l)" for c l l'
    by (auto simp: removeConnection_def Let_def split: if_splits)
  from assms(1) have "incoming ln' = remove1 (last (incoming ln)) (incoming ln)"
    by (auto simp: cleanupStep_def Let_def dest!: rm split: option.splits)
  with mem assms(2) show ?thesis
    by (simp add: length_remove1)
qed

function cleanupConnections :: "LocalNode \<Rightarrow> error + LocalNode" where
  "cleanupConnections ln =
     (if incoming ln = [] then Inr ln
      else case cleanupStep ln of
             Inl e \<Rightarrow> Inl e
           | Inr ln1 \<Rightarrow> cleanupConnections ln1)"
  by pat_completeness auto
termination
  by (relation "measure (\<lambda>ln. length (incoming ln))") (auto dest: cleanupStep_shrinks)

definition cleanup :: "NodeOps \<Rightarrow> LocalNode \<Rightarrow> error + LocalNode" where
  "cleanup ops ln =
     (case heap ln (this ln) of
        None \<Rightarrow> Inl NullDeref
      | Some me \<Rightarrow>
          if state me \<noteq> STATE_CLOSED then Inl AssertFailed
          else case outgoing me of
            None \<Rightarrow> Inl NullDeref
          | Some pipe \<Rightarrow>
              (case removeConnection (acceptSync ops pipe)
                      (ln\<lparr>heap := (heap ln)(this ln \<mapsto> me\<lparr>multicasts := []\<rparr>)\<rparr>) of
                 Inl e \<Rightarrow> Inl e
               | Inr ln1 \<Rightarrow>
                   (case cleanupConnections
                           (ln1\<lparr>connectionNodes := (connectionNodes ln1)(acceptSync ops pipe := None),
                                heap := (heap ln1)(this ln \<mapsto>
                                          me\<lparr>multicasts := [], outMulticast := None,
                                             outgoing := None\<rparr>)\<rparr>) of
                      Inl e \<Rightarrow> Inl e
                    | Inr ln2 \<Rightarrow> Inr (ln2\<lparr>connectionNodes := Map.empty, nodes := Map.empty\<rparr>))))"

text \<open>
  \<^verbatim>\<open>LocalNode::close\<close>. \<^verbatim>\<open>send( packet )\<close> sends the stop packet to the node itself;
  the receiver thread handles it while the caller waits in \<^verbatim>\<open>join\<close>.
\<close>

definition close :: "NodeOps \<Rightarrow> LocalNode \<Rightarrow> error + (bool \<times> LocalNode)" where
  "close ops ln =
     (case heap ln (this ln) of
        None \<Rightarrow> Inl NullDeref
      | Some me \<Rightarrow>
          if state me \<noteq> STATE_LISTENING then Inr (False, ln)
          else
            (case receiverThreadJoin ops (ln\<lparr>nodeSent := nodeSent ln @ [(this ln, NodeStopPacket)]\<rparr>) of
               (joined, ln1) \<Rightarrow>
                 if \<not> joined then Inl AssertFailed
                 else case cleanup ops ln1 of
                        Inl e \<Rightarrow> Inl e
                      | Inr ln2 \<Rightarrow>
                          if requests ln2 \<noteq> [] then Inl AssertFailed
                          else Inr (True, ln2)))"

section \<open>A concrete local node for the test runs\<close>

text \<open>
  A listening node (object 0, id 1) with its pipe (write end 0, read end 1), one
  connected peer (object 1, id 2, on connection 2), an unconnected node object 2 that
  the connect request 7 waits for, and a new connection 3 in its handshake. Every
  connection has the 8-byte size read pending.
\<close>

definition exampleOps :: NodeOps where
  "exampleOps =
     \<lparr>createNode = (\<lambda>t. \<lparr>getNodeID = 0, state = STATE_CLOSED, outgoing = None, getType = t,
                           outMulticast = None, multicasts = []\<rparr>),
      deserialize = (\<lambda>data n. (True, [], n\<lparr>getNodeID := of_nat (length data)\<rparr>)),
      serialize = (\<lambda>n. ''node''),
      acceptSync = (\<lambda>c. Suc c),
      receiverThreadJoin = (\<lambda>ln. (True,
         ln\<lparr>heap := (heap ln)(this ln :=
               map_option (\<lambda>n. n\<lparr>state := STATE_CLOSED\<rparr>) (heap ln (this ln)))\<rparr>)),
      connectMulticast = (\<lambda>p ln. Inr ln),
      LB_UNDEFINED_UINT32 = 0xFFFFFFFF,
      NODETYPE_CO_INVALID = 0\<rparr>"

definition exampleNode :: LocalNode where
  "exampleNode =
     \<lparr>this = 0,
      heap = [0 \<mapsto> \<lparr>getNodeID = 1, state = STATE_LISTENING, outgoing = Some 0, getType = 0,
                     outMulticast = None, multicasts = []\<rparr>,
              1 \<mapsto> \<lparr>getNodeID = 2, state = STATE_CONNECTED, outgoing = Some 2, getType = 0,
                     outMulticast = None, multicasts = []\<rparr>,
              2 \<mapsto> \<lparr>getNodeID = 0, state = STATE_CLOSED, outgoing = None, getType = 0,
                     outMulticast = None, multicasts = []\<rparr>],
      nextNode = 3,
      connections = (\<lambda>c. \<lparr>connectionState = ConnConnected, recvData = Some 8\<rparr>),
      connectionNodes = [1 \<mapsto> 0, 2 \<mapsto> 1],
      nodes = [1 \<mapsto> 0, 2 \<mapsto> 1],
      incoming = [1, 2, 3],
      requests = [(7, Some 2)],
      served = [],
      connectionSent = [],
      nodeSent = []\<rparr>"

section \<open>Pending commands (\<^verbatim>\<open>_redispatchCommands\<close>)\<close>

text \<open>
  \<^verbatim>\<open>dispatchCommand\<close> hands a command to a handler of the dispatcher table or of the
  object store. It is a parameter: from the state of the node outside the pending list
  and the command it gives a failed assertion of the handler, or else whether the
  command was dispatched, and the new state. \<^verbatim>\<open>command->isValid()\<close> and
  \<^verbatim>\<open>command->release()\<close> are the parameters \<open>isValid\<close> and \<open>releaseCommand\<close>.
\<close>

record ('s, 'c) DispatchOps =
  isValid :: "'c \<Rightarrow> bool"
  dispatchCommand :: "'s \<Rightarrow> 'c \<Rightarrow> error + (bool \<times> 's)"
  releaseCommand :: "'c \<Rightarrow> 's \<Rightarrow> 's"

text \<open>
  The \<^verbatim>\<open>for\<close> loop: the commands before the iterator, the commands from the iterator
  on. It stops at the first command that dispatches, erases it and reports a change.
\<close>

fun redispatchPass ::
  "('s, 'c) DispatchOps \<Rightarrow> 'c list \<Rightarrow> 'c list \<Rightarrow> 's \<Rightarrow> error + (bool \<times> 'c list \<times> 's)" where
  "redispatchPass ops before [] s = Inr (False, before, s)"
| "redispatchPass ops before (command # rest) s =
     (if \<not> isValid ops command then Inl AssertFailed
      else case dispatchCommand ops s command of
        Inl e \<Rightarrow> Inl e
      | Inr (dispatched, s1) \<Rightarrow>
          if dispatched then Inr (True, before @ rest, releaseCommand ops command s1)
          else redispatchPass ops (before @ [command]) rest s1)"

lemma redispatchPass_length:
  "redispatchPass ops before pending s = Inr (changes, pending', s') \<Longrightarrow>
     (changes \<longrightarrow> Suc (length pending') = length before + length pending) \<and>
     (\<not> changes \<longrightarrow> pending' = before @ pending)"
proof (induction pending arbitrary: before s)
  case Nil
  then show ?case by simp
next
  case (Cons command rest)
  from Cons.prems obtain dispatched s1 where
    d: "dispatchCommand ops s command = Inr (dispatched, s1)" and v: "isValid ops command"
    by (auto split: if_splits sum.splits)
  show ?case
  proof (cases dispatched)
    case True
    with Cons.prems d v show ?thesis by auto
  next
    case False
    with Cons.prems d v
    have "redispatchPass ops (before @ [command]) rest s1 = Inr (changes, pending', s')"
      by simp
    from Cons.IH [OF this] show ?thesis by simp
  qed
qed

text \<open>
  The \<^verbatim>\<open>while( changes && !pendingCommands.empty( ))\<close> loop. Every round either erases
  a command or clears \<open>changes\<close>, which is the measure of the termination proof.
\<close>

function redispatchLoop ::
  "('s, 'c) DispatchOps \<Rightarrow> bool \<Rightarrow> 'c list \<Rightarrow> 's \<Rightarrow> error + ('c list \<times> 's)" where
  "redispatchLoop ops changes pending s =
     (if changes \<and> pending \<noteq> []
      then (case redispatchPass ops [] pending s of
              Inl e \<Rightarrow> Inl e
            | Inr (changes', pending', s') \<Rightarrow> redispatchLoop ops changes' pending' s')
      else Inr (pending, s))"
  by pat_completeness auto
termination
proof (relation "measure (\<lambda>(ops, changes, pending, s).
                   2 * length pending + (if changes then 1 else 0))")
  fix ops :: "('s, 'c) DispatchOps" and changes pending s triple changes' rest pending' s'
  assume "changes \<and> pending \<noteq> []" and "redispatchPass ops [] pending s = Inr triple"
    and "(changes', rest) = triple" and "(pending', s') = rest"
  then have "redispatchPass ops [] pending s = Inr (changes', pending', s')" and "changes"
    by auto
  from redispatchPass_length [OF this(1)] this(2)
  show "((ops, changes', pending', s'), (ops, changes, pending, s))
          \<in> measure (\<lambda>(ops, changes, pending, s).
                2 * length pending + (if changes then 1 else 0))"
    by (cases changes') auto
qed simp

declare redispatchLoop.simps [simp del]

text \<open>\<^verbatim>\<open>_redispatchCommands\<close> with the assertion of the debug build at its end.\<close>

definition redispatchCommands ::
  "('s, 'c) DispatchOps \<Rightarrow> 'c list \<Rightarrow> 's \<Rightarrow> error + ('c list \<times> 's)" where
  "redispatchCommands ops pendingCommands s =
     (case redispatchLoop ops True pendingCommands s of
        Inl e \<Rightarrow> Inl e
      | Inr (pending', s') \<Rightarrow>
          if \<not> length pending' < 200 then Inl AssertFailed else Inr (pending', s'))"

text \<open>
  A test dispatcher: the state counts the commands released so far, and the command
  \<open>c\<close> dispatches once at least \<open>c\<close> commands have been released.
\<close>

definition exampleDispatch :: "(nat, nat) DispatchOps" where
  "exampleDispatch =
     \<lparr>isValid = (\<lambda>c. True), dispatchCommand = (\<lambda>s c. Inr (c \<le> s, s)),
      releaseCommand = (\<lambda>c s. Suc s)\<rparr>"

section \<open>Connecting by node identifier (\<^verbatim>\<open>_connect( nodeID, peer )\<close>)\<close>

datatype ConnectResult =
  CONNECT_OK | CONNECT_TRY_AGAIN | CONNECT_BAD_STATE | CONNECT_TIMEOUT | CONNECT_UNREACHABLE

text \<open>
  What the retry loop does that can be observed: a call of \<^verbatim>\<open>_connect( node )\<close> with
  the result it returned, and a \<^verbatim>\<open>lunchbox::sleep\<close> of the given number of milliseconds.
\<close>

datatype ConnectEvent = is_Attempt: Attempt NodePtr ConnectResult | Sleep "8 word"

text \<open>
  The surroundings of the loop, over a state \<open>'w\<close> of the node and its peers:
  the lookup \<^verbatim>\<open>_impl->nodes->find( nodeID )\<close>, \<^verbatim>\<open>node->isConnected()\<close>, the handshake
  \<^verbatim>\<open>_connect( node )\<close> with one node (it blocks until the receiver thread serves the
  request or the timeout passes), the \<^verbatim>\<open>GET_NODE_DATA\<close> request to the peer with the
  wait for its reply, the random byte \<^verbatim>\<open>rng.get< uint8_t >()\<close>, and the id of the local
  node.
\<close>

record 'w ConnectOps =
  findNode :: "NodeID \<Rightarrow> 'w \<Rightarrow> NodePtr option"
  nodeIsConnected :: "NodePtr \<Rightarrow> 'w \<Rightarrow> bool"
  connectNode :: "NodePtr \<Rightarrow> 'w \<Rightarrow> ConnectResult \<times> 'w"
  getNodeData :: "NodeID \<Rightarrow> NodePtr \<Rightarrow> 'w \<Rightarrow> NodePtr option \<times> 'w"
  rngGet :: "'w \<Rightarrow> 8 word \<times> 'w"
  localNodeID :: "'w \<Rightarrow> NodeID"

text \<open>
  The loop \<^verbatim>\<open>while( --tries )\<close> with its exit
  \<^verbatim>\<open>return node->isConnected() ? node : 0\<close>; \<open>tries\<close> is the value of the variable
  before the decrement. The variable starts at 10 and only decreases, so the
  wrap-around of \<^verbatim>\<open>size_t\<close> at 0 is never reached and the model counts in \<open>nat\<close>.
\<close>

function connectRetry ::
  "'w ConnectOps \<Rightarrow> NodeID \<Rightarrow> nat \<Rightarrow> NodePtr \<Rightarrow> 'w \<Rightarrow> ConnectEvent list \<Rightarrow>
     NodePtr option \<times> 'w \<times> ConnectEvent list" where
  "connectRetry ops nodeID tries node w trace =
     (if tries - 1 = 0
      then (if nodeIsConnected ops node w then Some node else None, w, trace)
      else case connectNode ops node w of
        (result, w1) \<Rightarrow>
          (case result of
             CONNECT_OK \<Rightarrow> (Some node, w1, trace @ [Attempt node CONNECT_OK])
           | CONNECT_TRY_AGAIN \<Rightarrow>
               (case rngGet ops w1 of
                  (ms, w2) \<Rightarrow>
                    connectRetry ops nodeID (tries - 1)
                      (case findNode ops nodeID w2 of Some found \<Rightarrow> found | None \<Rightarrow> node)
                      w2 (trace @ [Attempt node CONNECT_TRY_AGAIN, Sleep ms]))
           | CONNECT_BAD_STATE \<Rightarrow> (None, w1, trace @ [Attempt node CONNECT_BAD_STATE])
           | CONNECT_TIMEOUT \<Rightarrow> (None, w1, trace @ [Attempt node CONNECT_TIMEOUT])
           | CONNECT_UNREACHABLE \<Rightarrow>
               connectRetry ops nodeID (tries - 1)
                 (case findNode ops nodeID w1 of Some found \<Rightarrow> found | None \<Rightarrow> node)
                 w1 (trace @ [Attempt node CONNECT_UNREACHABLE])))"
  by pat_completeness auto
termination
  by (relation "measure (\<lambda>(ops, nodeID, tries, node, w, trace). tries)") auto

declare connectRetry.simps [simp del]

text \<open>
  \<^verbatim>\<open>LocalNode::_connect( const NodeID& nodeID, NodePtr peer )\<close>: the node found, the
  state and the events of the retry loop.
\<close>

definition connectNodeID ::
  "'w ConnectOps \<Rightarrow> NodeID \<Rightarrow> NodePtr \<Rightarrow> 'w \<Rightarrow>
     error + (NodePtr option \<times> 'w \<times> ConnectEvent list)" where
  "connectNodeID ops nodeID peer w =
     (if \<not> nodeID \<noteq> ZERO then Inl AssertFailed
      else case findNode ops nodeID w of
        Some node \<Rightarrow>
          if \<not> nodeIsConnected ops node w then Inl AssertFailed
          else Inr (Some node, w, [])
      | None \<Rightarrow>
          if \<not> localNodeID ops w \<noteq> nodeID then Inl AssertFailed
          else case getNodeData ops nodeID peer w of
            (None, w1) \<Rightarrow> Inr (None, w1, [])
          | (Some node, w1) \<Rightarrow>
              if nodeIsConnected ops node w1 then Inr (Some node, w1, [])
              else Inr (connectRetry ops nodeID 10 node w1 []))"

text \<open>
  A peer that knows the node 5 under the requested id, and a node 5 that answers every
  handshake with a refusal (\<^verbatim>\<open>CONNECT_TRY_AGAIN\<close>); the state counts the random numbers
  drawn, each of which is 17.
\<close>

definition exampleConnect :: "nat ConnectOps" where
  "exampleConnect =
     \<lparr>findNode = (\<lambda>nodeID w. None),
      nodeIsConnected = (\<lambda>node w. False),
      connectNode = (\<lambda>node w. (CONNECT_TRY_AGAIN, w)),
      getNodeData = (\<lambda>nodeID peer w. (Some 5, w)),
      rngGet = (\<lambda>w. (17, Suc w)),
      localNodeID = (\<lambda>w. 1)\<rparr>"

text \<open>
  The same peer and a node 5 that refuses the first two handshakes and accepts the
  third; the random numbers drawn are 200 and 31.
\<close>

definition exampleCollision :: "nat ConnectOps" where
  "exampleCollision =
     \<lparr>findNode = (\<lambda>nodeID w. None),
      nodeIsConnected = (\<lambda>node w. False),
      connectNode = (\<lambda>node w. (if w < 2 then CONNECT_TRY_AGAIN else CONNECT_OK, w)),
      getNodeData = (\<lambda>nodeID peer w. (Some 5, w)),
      rngGet = (\<lambda>w. (if w = 0 then 200 else 31, Suc w)),
      localNodeID = (\<lambda>w. 1)\<rparr>"

text \<open>
  The retry policy in the words of the spec, as a property of the events of a call
  that may make \<open>n\<close> attempts: an attempt answered by \<^verbatim>\<open>CONNECT_TRY_AGAIN\<close> is followed
  by a back-off sleep of at most 255 ms and then retried; an attempt answered by
  \<^verbatim>\<open>CONNECT_UNREACHABLE\<close> is retried at once; any other answer ends the call; no
  sleep comes without a refused attempt before it; and the retries end only when the
  \<open>n\<close> attempts are used up.
\<close>

fun retried :: "nat \<Rightarrow> ConnectEvent list \<Rightarrow> bool" where
  "retried n [] = (n = 0)"
| "retried n (e # es) =
     (case e of
        Sleep ms \<Rightarrow> False
      | Attempt node result \<Rightarrow>
          0 < n \<and>
          (case result of
             CONNECT_TRY_AGAIN \<Rightarrow>
               (case es of
                  Sleep ms # rest \<Rightarrow> unat ms \<le> 255 \<and> retried (n - 1) rest
                | _ \<Rightarrow> False)
           | CONNECT_UNREACHABLE \<Rightarrow> retried (n - 1) es
           | _ \<Rightarrow> es = []))"

section \<open>The stream of object data packets (objectDataIStream.cpp)\<close>

text \<open>
  The fields of an \<^verbatim>\<open>ObjectDataPacket\<close> that the stream reads; \<open>isLast\<close> is the field
  \<^verbatim>\<open>last\<close>. A command of the deque is identified with its packet.
\<close>

record ObjectDataPacket =
  sequence :: "32 word"
  version :: "32 word"
  dataSize :: "64 word"
  isLast :: bool

text \<open>
  The stream: the deque \<^verbatim>\<open>_commands\<close> of command pointers (a null pointer is \<open>None\<close>), the
  number of references it holds on commands (\<^verbatim>\<open>retain\<close>, \<^verbatim>\<open>release\<close>), the member
  \<^verbatim>\<open>_version\<close>, the thread recorded by \<^verbatim>\<open>CHECK_THREAD\<close>, and the ready flag. The
  constant \<^verbatim>\<open>VERSION_INVALID\<close> is a parameter of the constructor and of \<open>reset\<close>.
\<close>

record ObjectDataIStream =
  commands :: "ObjectDataPacket option list"
  retained :: nat
  streamVersion :: "32 word"
  streamThread :: "thread option"
  ready :: bool

text \<open>
  Modelled from the spec: \<^verbatim>\<open>_setReady\<close> and the ready flag, declared in the header of
  the class, which is not among the sources. The stream has a ready flag that becomes
  true when a command with \<^verbatim>\<open>last=true\<close> arrives, and \<^verbatim>\<open>reset\<close> (through
  \<^verbatim>\<open>DataIStream::reset\<close>) takes every state to the empty one, which is not ready.
\<close>

definition setReady :: "ObjectDataIStream \<Rightarrow> ObjectDataIStream" where
  "setReady s = s\<lparr>ready := True\<rparr>"

text \<open>The constructor pushes a null command (``see getNextCommand()'').\<close>

definition newObjectDataIStream :: "32 word \<Rightarrow> ObjectDataIStream" where
  "newObjectDataIStream VERSION_INVALID =
     \<lparr>commands = [None], retained = 0, streamVersion = VERSION_INVALID,
      streamThread = None, ready = False\<rparr>"

text \<open>
  \<^verbatim>\<open>reset\<close> releases and pops every command; it leaves the deque empty.
\<close>

fun popAll :: "ObjectDataPacket option list \<Rightarrow> nat \<Rightarrow> ObjectDataPacket option list \<times> nat" where
  "popAll [] n = ([], n)"
| "popAll (command # rest) n = popAll rest (case command of None \<Rightarrow> n | Some c \<Rightarrow> n - 1)"

definition reset :: "32 word \<Rightarrow> ObjectDataIStream \<Rightarrow> ObjectDataIStream" where
  "reset VERSION_INVALID s =
     (case popAll (commands s) (retained s) of
        (popped, n) \<Rightarrow>
          s\<lparr>commands := popped, retained := n, streamVersion := VERSION_INVALID, ready := False\<rparr>)"

text \<open>
  \<^verbatim>\<open>addDataPacket\<close> in the debug build: the thread check, the assertions on the
  sequence number and the version, then \<^verbatim>\<open>retain\<close>, the push and \<^verbatim>\<open>_setReady\<close>.
\<close>

definition addDataPacket ::
  "thread \<Rightarrow> ObjectDataPacket \<Rightarrow> ObjectDataIStream \<Rightarrow> error + ObjectDataIStream" where
  "addDataPacket cur packet s =
     (if streamThread s \<noteq> None \<and> streamThread s \<noteq> Some cur then Inl AssertFailed
      else
        (let s1 = s\<lparr>streamThread := Some cur\<rparr>;
             push = (let s2 = s1\<lparr>retained := Suc (retained s1),
                                     commands := commands s1 @ [Some packet]\<rparr>
                     in Inr (if isLast packet then setReady s2 else s2))
         in if length (commands s1) < 2
            then (if \<not> sequence packet = 0 then Inl AssertFailed else push)
            else case last (commands s1) of
                   None \<Rightarrow> Inl NullDeref
                 | Some previous \<Rightarrow>
                     if \<not> sequence packet = sequence previous + 1 then Inl AssertFailed
                     else if \<not> version packet = version previous then Inl AssertFailed
                     else push))"

text \<open>A sequence of calls of \<^verbatim>\<open>addDataPacket\<close>; the first failure ends it.\<close>

fun addDataPackets ::
  "thread \<Rightarrow> ObjectDataPacket list \<Rightarrow> ObjectDataIStream \<Rightarrow> error + ObjectDataIStream" where
  "addDataPackets cur [] s = Inr s"
| "addDataPackets cur (packet # packets) s =
     (case addDataPacket cur packet s of
        Inl e \<Rightarrow> Inl e
      | Inr s1 \<Rightarrow> addDataPackets cur packets s1)"

text \<open>
  The invariant in the words of the spec: the packet at position \<open>i\<close> has the sequence
  number \<open>i\<close>, and all packets have one version.
\<close>

definition inSequence :: "ObjectDataPacket list \<Rightarrow> bool" where
  "inSequence packets =
     (\<forall>i < length packets. sequence (packets ! i) = of_nat i
                         \<and> version (packets ! i) = version (packets ! 0))"

section \<open>Child reconciliation (\<^verbatim>\<open>DataIStream::deserializeChildren\<close>)\<close>

type_synonym UUID = "128 word"
type_synonym ObjectPtr = nat

record ObjectVersion =
  ident :: UUID
  objectVersion :: "128 word"

text \<open>What the function reads of a child: \<^verbatim>\<open>getID()\<close>, \<^verbatim>\<open>isAttached()\<close>, \<^verbatim>\<open>isMaster()\<close>.\<close>

record Object =
  getID :: UUID
  isAttached :: bool
  isMaster :: bool

text \<open>
  The calls the function makes to the owner object, to the children and to the local
  node, in their order: \<^verbatim>\<open>object->create\<close>, \<^verbatim>\<open>localNode->mapObject\<close>, \<^verbatim>\<open>child->sync\<close>,
  \<^verbatim>\<open>localNode->unmapObject\<close>, \<^verbatim>\<open>object->release\<close>.
\<close>

datatype ChildCall =
    Create ObjectPtr
  | MapObject ObjectPtr ObjectVersion
  | Sync ObjectPtr "128 word"
  | UnmapObject ObjectPtr
  | Release ObjectPtr

text \<open>
  The store: the child objects, the next free object address, the vectors of child
  pointers by their address (a null pointer is \<open>None\<close>), and the calls made so far.
\<close>

record ChildStore =
  objects :: "ObjectPtr \<rightharpoonup> Object"
  nextObject :: ObjectPtr
  vectors :: "nat \<Rightarrow> ObjectPtr option list"
  calls :: "ChildCall list"

text \<open>
  The owner: whether it is the master instance, whether \<^verbatim>\<open>mapObject\<close> succeeds for a
  version, and the constant \<^verbatim>\<open>VERSION_HEAD\<close>.
\<close>

record ChildOps =
  ownerIsMaster :: bool
  mapObjectOK :: "ObjectVersion \<Rightarrow> bool"
  VERSION_HEAD :: "128 word"

definition push_back :: "nat \<Rightarrow> ObjectPtr option \<Rightarrow> ChildStore \<Rightarrow> ChildStore" where
  "push_back v child st = st\<lparr>vectors := (vectors st)(v := vectors st v @ [child])\<rparr>"

definition call :: "ChildCall \<Rightarrow> ChildStore \<Rightarrow> ChildStore" where
  "call c st = st\<lparr>calls := calls st @ [c]\<rparr>"

text \<open>
  Modelled from the spec: the effects of \<^verbatim>\<open>create\<close>, \<^verbatim>\<open>mapObject\<close>, \<^verbatim>\<open>unmapObject\<close>,
  \<^verbatim>\<open>sync\<close> and \<^verbatim>\<open>release\<close>, methods of the owner, the children and the local node,
  whose classes are outside the sources. \<^verbatim>\<open>create\<close> allocates a new child (at the next
  free address, so the pointer is not null and \<^verbatim>\<open>LBASSERT( child )\<close> holds),
  \<^verbatim>\<open>mapObject\<close> maps the child to the identifier of the version (the child is attached
  then), \<^verbatim>\<open>unmapObject\<close> detaches the child, and \<^verbatim>\<open>sync\<close> and \<^verbatim>\<open>release\<close> change
  nothing that the function reads.
\<close>

definition create :: "ChildStore \<Rightarrow> ObjectPtr \<times> ChildStore" where
  "create st =
     (nextObject st,
      call (Create (nextObject st))
        (st\<lparr>objects := (objects st)(nextObject st \<mapsto>
                 \<lparr>getID = ZERO, isAttached = False, isMaster = False\<rparr>),
            nextObject := Suc (nextObject st)\<rparr>))"

definition mapObject :: "ObjectPtr \<Rightarrow> ObjectVersion \<Rightarrow> ChildStore \<Rightarrow> ChildStore" where
  "mapObject child v st =
     call (MapObject child v)
       (st\<lparr>objects := (objects st)(child :=
               map_option (\<lambda>obj. obj\<lparr>getID := ident v, isAttached := True\<rparr>)
                 (objects st child))\<rparr>)"

definition unmapObject :: "ObjectPtr \<Rightarrow> ChildStore \<Rightarrow> ChildStore" where
  "unmapObject child st =
     call (UnmapObject child)
       (st\<lparr>objects := (objects st)(child :=
               map_option (\<lambda>obj. obj\<lparr>isAttached := False\<rparr>) (objects st child))\<rparr>)"

text \<open>
  \<^verbatim>\<open>stde::find_if( old, ObjectFinder( id ))\<close> followed by \<^verbatim>\<open>old.erase( j )\<close> when a child
  was found: the candidates before the iterator, the candidates from the iterator on.
  The finder calls \<^verbatim>\<open>candidate->getID()\<close> on every candidate it visits.
\<close>

fun find_if ::
  "(ObjectPtr \<rightharpoonup> Object) \<Rightarrow> UUID \<Rightarrow> ObjectPtr option list \<Rightarrow> ObjectPtr option list \<Rightarrow>
     error + (ObjectPtr \<times> ObjectPtr option list) option" where
  "find_if objs uuid before [] = Inr None"
| "find_if objs uuid before (candidate # rest) =
     (case candidate of
        None \<Rightarrow> Inl NullDeref
      | Some c \<Rightarrow>
          (case objs c of
             None \<Rightarrow> Inl NullDeref
           | Some obj \<Rightarrow>
               if getID obj = uuid then Inr (Some (c, before @ rest))
               else find_if objs uuid (before @ [candidate]) rest))"

text \<open>The loop that rebuilds the vector at the address \<open>result\<close> from the serialized list.\<close>

fun rebuild ::
  "ChildOps \<Rightarrow> nat \<Rightarrow> ObjectVersion list \<Rightarrow> ObjectPtr option list \<Rightarrow> ChildStore \<Rightarrow>
     error + (ObjectPtr option list \<times> ChildStore)" where
  "rebuild ops result [] old st = Inr (old, st)"
| "rebuild ops result (v # versions) old st =
     (if ident v = ZERO then rebuild ops result versions old (push_back result None st)
      else case find_if (objects st) (ident v) [] old of
        Inl e \<Rightarrow> Inl e
      | Inr None \<Rightarrow>
          (case create st of
             (child, st1) \<Rightarrow>
               if \<not> \<not> ownerIsMaster ops then Inl AssertFailed
               else if \<not> mapObjectOK ops v then Inl AssertFailed
               else rebuild ops result versions old
                      (push_back result (Some child) (mapObject child v st1)))
      | Inr (Some (child, old1)) \<Rightarrow>
          rebuild ops result versions old1
            (push_back result (Some child)
               (call (Sync child (if ownerIsMaster ops then VERSION_HEAD ops
                                  else objectVersion v)) st)))"

text \<open>
  The loop over the removed children. It takes the children from the back of \<open>old\<close>,
  so it is given the reversed list.
\<close>

fun releaseRemoved :: "ObjectPtr option list \<Rightarrow> ChildStore \<Rightarrow> error + ChildStore" where
  "releaseRemoved [] st = Inr st"
| "releaseRemoved (child # rest) st =
     (case child of
        None \<Rightarrow> releaseRemoved rest st
      | Some c \<Rightarrow>
          (case objects st c of
             None \<Rightarrow> Inl NullDeref
           | Some obj \<Rightarrow>
               releaseRemoved rest
                 (call (Release c)
                    (if isAttached obj \<and> \<not> isMaster obj then unmapObject c st else st))))"

text \<open>
  \<^verbatim>\<open>deserializeChildren( object, old_, result )\<close> for the list of versions read from the
  stream; \<open>oldAddr\<close> and \<open>result\<close> are the addresses of the two vectors, which may be the
  same. The vector at \<open>oldAddr\<close> is copied before the vector at \<open>result\<close> is cleared.
\<close>

definition deserializeChildren ::
  "ChildOps \<Rightarrow> ObjectVersion list \<Rightarrow> nat \<Rightarrow> nat \<Rightarrow> ChildStore \<Rightarrow> error + ChildStore" where
  "deserializeChildren ops versions oldAddr result st =
     (let old = vectors st oldAddr;
          st1 = st\<lparr>vectors := (vectors st)(result := [])\<rparr>
      in case rebuild ops result versions old st1 of
           Inl e \<Rightarrow> Inl e
         | Inr (old1, st2) \<Rightarrow> releaseRemoved (rev old1) st2)"

text \<open>
  The scenario of the spec: the children A, B, C (objects 0, 1, 2) with the
  identifiers 1, 2, 3 in the vector 0, all attached slaves, and a slave owner.
\<close>

definition exampleChildren :: ChildStore where
  "exampleChildren =
     \<lparr>objects = [0 \<mapsto> \<lparr>getID = 1, isAttached = True, isMaster = False\<rparr>,
                 1 \<mapsto> \<lparr>getID = 2, isAttached = True, isMaster = False\<rparr>,
                 2 \<mapsto> \<lparr>getID = 3, isAttached = True, isMaster = False\<rparr>],
      nextObject = 3,
      vectors = (\<lambda>v. if v = 0 then [Some 0, Some 1, Some 2] else []),
      calls = []\<rparr>"

definition exampleOwner :: "bool \<Rightarrow> ChildOps" where
  "exampleOwner master =
     \<lparr>ownerIsMaster = master, mapObjectOK = (\<lambda>v. True), VERSION_HEAD = 0xFFFFFFFFFFFFFFFF\<rparr>"

text \<open>
  The identifier of the child behind an entry of the old vector, as \<^verbatim>\<open>ObjectFinder\<close>
  reads it with \<^verbatim>\<open>getID()\<close>; a null pointer has none.
\<close>

definition childID :: "ChildStore \<Rightarrow> ObjectPtr option \<Rightarrow> UUID option" where
  "childID st x = (case x of None \<Rightarrow> None | Some c \<Rightarrow> map_option getID (objects st c))"

definition childIDs :: "ChildStore \<Rightarrow> ObjectPtr option list \<Rightarrow> UUID list" where
  "childIDs st old = List.map_filter (childID st) old"

text \<open>
  In the words of the spec, the entries of the serialized list with an unmatched
  identifier, given the identifiers of the children in old: an entry with the
  identifier ZERO is none of them; an entry whose identifier matches a child left in old
  takes that child out of old; every other entry is unmatched.
\<close>

fun unmatchedVersions :: "UUID list \<Rightarrow> ObjectVersion list \<Rightarrow> ObjectVersion list" where
  "unmatchedVersions ids [] = []"
| "unmatchedVersions ids (v # versions) =
     (if ident v = ZERO then unmatchedVersions ids versions
      else if ident v \<in> set ids then unmatchedVersions (remove1 (ident v) ids) versions
      else v # unmatchedVersions ids versions)"

text \<open>
  The contract of one slot of the result, in the words of the spec, for the store
  \<open>st\<close> and the old children \<open>old\<close> at the start and the slots \<open>earlier\<close> before this
  one: a ZERO identifier gives a null slot; else the slot holds a child that stands in
  no earlier slot, and this child is either an old child with this identifier (the
  match takes it out of old, so it is matched once), or, on an owner that is not
  master, a child allocated by this call, and then every old child with this
  identifier stands in an earlier slot.
\<close>

definition slotContract ::
  "ChildOps \<Rightarrow> ChildStore \<Rightarrow> ObjectPtr option list \<Rightarrow> ObjectPtr option list \<Rightarrow>
     ObjectVersion \<Rightarrow> ObjectPtr option \<Rightarrow> bool" where
  "slotContract ops st old earlier v slot =
     (if ident v = ZERO then slot = None
      else case slot of
        None \<Rightarrow> False
      | Some c \<Rightarrow>
          slot \<notin> set earlier
          \<and> (slot \<in> set old \<and> childID st slot = Some (ident v)
             \<or> nextObject st \<le> c \<and> \<not> ownerIsMaster ops
               \<and> (\<forall>x \<in> set old. childID st x = Some (ident v) \<longrightarrow> x \<in> set earlier)))"

text \<open>
  The calls the spec prescribes for one slot, for the store \<open>st\<close> at the start: none
  for a null slot; for an old child (its address lies below the next free address of
  \<open>st\<close>) the sync, to HEAD on a master and to the serialized version otherwise; for
  a new child its creation by the owner and its mapping to the serialized version.
\<close>

definition slotCalls ::
  "ChildOps \<Rightarrow> ChildStore \<Rightarrow> ObjectVersion \<Rightarrow> ObjectPtr option \<Rightarrow> ChildCall list" where
  "slotCalls ops st v slot =
     (case slot of
        None \<Rightarrow> []
      | Some c \<Rightarrow>
          if c < nextObject st
          then [Sync c (if ownerIsMaster ops then VERSION_HEAD ops else objectVersion v)]
          else [Create c, MapObject c v])"

text \<open>
  The calls the spec prescribes for an old child that is removed: it is unmapped when
  it is attached and not a master, and then released; a null pointer gives no call.
\<close>

definition removedCalls :: "ChildStore \<Rightarrow> ObjectPtr option \<Rightarrow> ChildCall list" where
  "removedCalls st x =
     (case x of
        None \<Rightarrow> []
      | Some c \<Rightarrow>
          (case objects st c of
             None \<Rightarrow> []
           | Some obj \<Rightarrow>
               (if isAttached obj \<and> \<not> isMaster obj then [UnmapObject c] else []) @ [Release c]))"

text \<open>
  A later store extends an earlier one: it allocates upwards and keeps the objects
  that existed.
\<close>

definition extends :: "ChildStore \<Rightarrow> ChildStore \<Rightarrow> bool" where
  "extends st st1 =
     (nextObject st \<le> nextObject st1
      \<and> (\<forall>c < nextObject st. objects st1 c = objects st c))"

section \<open>Properties of the send token\<close>

lemma cmdAcquireSendToken_available:
  assumes "current env = CommandThread" and "sendToken s"
    and "getTimeout env = LB_TIMEOUT_INDEFINITE env \<or>
         unat (getTime64 env - lastSendToken s) \<le> unat (getTimeout env)"
  shows "cmdAcquireSendToken env c s =
           Inr (True, (retain c s)\<lparr>sendTokenQueue := sendTokenQueue s @ [c]\<rparr>)"
  using assms by (simp add: cmdAcquireSendToken_def)

lemma cmdAcquireSendToken_available_timeout:
  assumes "current env = CommandThread" and "sendToken s" and "getNode c = Some n"
    and "getTimeout env \<noteq> LB_TIMEOUT_INDEFINITE env"
    and "unat (getTimeout env) < unat (getTime64 env - lastSendToken s)"
  shows "cmdAcquireSendToken env c s =
           Inr (True, s\<lparr>sendTokenQueue := [], sendToken := False,
                        sent := sent s @ [(n, NodeAcquireSendTokenReplyPacket (requestID c))]\<rparr>)"
  using assms by (simp add: cmdAcquireSendToken_def sendTokenReply_def)

lemma cmdAcquireSendToken_unavailable:
  assumes "current env = CommandThread" and "\<not> sendToken s" and "getNode c = Some n"
  shows "cmdAcquireSendToken env c s =
           Inr (True, s\<lparr>sendToken := False,
                        sent := sent s @ [(n, NodeAcquireSendTokenReplyPacket (requestID c))]\<rparr>)"
  using assms by (simp add: cmdAcquireSendToken_def sendTokenReply_def)

text \<open>
  C1. The claim: an available token (bit true) is granted at once; without a token
  the request is queued while the timeout has not elapsed. The handler does the
  opposite. First run: the token is available and the last release was 2 ms ago with
  a timeout of 1000 ms; the request is retained and queued, no reply is sent and the
  bit stays true. Second run: the token is taken and the timeout has not elapsed; the
  request is granted at once and the queue stays empty.
\<close>

theorem cmdAcquireSendToken_inverted_test:
  "cmdAcquireSendToken
      \<lparr>current = CommandThread, getTime64 = 5, getTimeout = 1000,
       LB_TIMEOUT_INDEFINITE = 0xFFFFFFFF\<rparr>
      \<lparr>cmdID = 1, getNode = Some 7, requestID = 42,
          packetNodeID = 0, packetNodeType = 0, packetNodeData = []\<rparr>
      \<lparr>sendToken = True, lastSendToken = 3, sendTokenQueue = [], sent = [],
       refCount = (\<lambda>_. 1)\<rparr>
   = Inr (True, \<lparr>sendToken = True, lastSendToken = 3,
                  sendTokenQueue = [\<lparr>cmdID = 1, getNode = Some 7, requestID = 42,
          packetNodeID = 0, packetNodeType = 0, packetNodeData = []\<rparr>],
                  sent = [], refCount = (\<lambda>_. 1)(1 := Suc 1)\<rparr>)
   \<and>
   cmdAcquireSendToken
      \<lparr>current = CommandThread, getTime64 = 5, getTimeout = 1000,
       LB_TIMEOUT_INDEFINITE = 0xFFFFFFFF\<rparr>
      \<lparr>cmdID = 2, getNode = Some 8, requestID = 43,
          packetNodeID = 0, packetNodeType = 0, packetNodeData = []\<rparr>
      \<lparr>sendToken = False, lastSendToken = 3, sendTokenQueue = [], sent = [],
       refCount = (\<lambda>_. 1)\<rparr>
   = Inr (True, \<lparr>sendToken = False, lastSendToken = 3, sendTokenQueue = [],
                  sent = [(8, NodeAcquireSendTokenReplyPacket 43)], refCount = (\<lambda>_. 1)\<rparr>)"
  by (simp add: cmdAcquireSendToken_def retain_def sendTokenReply_def)

text \<open>
  C7, as amended. In the command thread, every release sets the time of the last
  release to the current time. A release while the bit is true changes nothing else:
  the bit, the queue, the packets sent and the reference counts stay as they are.
  With the bit false and an empty queue the bit becomes true; with the bit false and
  a non-empty queue the head of the queue, which is the oldest request because
  requests are appended at the back, is removed, the reply to it is sent to its node,
  the request is released, and the bit stays false.
\<close>

theorem cmdReleaseSendToken_cases:
  assumes "current env = CommandThread"
  shows "(sendToken s \<longrightarrow>
            cmdReleaseSendToken env s = Inr (True, s\<lparr>lastSendToken := getTime64 env\<rparr>))
       \<and> (\<not> sendToken s \<and> sendTokenQueue s = [] \<longrightarrow>
            cmdReleaseSendToken env s =
              Inr (True, s\<lparr>lastSendToken := getTime64 env, sendToken := True\<rparr>))
       \<and> (\<forall>request rest n.
            \<not> sendToken s \<and> sendTokenQueue s = request # rest \<and> getNode request = Some n \<longrightarrow>
            cmdReleaseSendToken env s =
              Inr (True, release request
                     (s\<lparr>lastSendToken := getTime64 env, sendTokenQueue := rest,
                        sent := sent s @ [(n, NodeAcquireSendTokenReplyPacket (requestID request))]\<rparr>)))"
  using assms by (simp add: cmdReleaseSendToken_def sendTokenReply_def)

theorem cmdReleaseSendToken_cases_witness:
  "cmdReleaseSendToken
      \<lparr>current = CommandThread, getTime64 = 9, getTimeout = 1000,
       LB_TIMEOUT_INDEFINITE = 0xFFFFFFFF\<rparr>
      \<lparr>sendToken = True, lastSendToken = 3, sendTokenQueue = [], sent = [],
       refCount = (\<lambda>_. 1)\<rparr>
    = Inr (True, \<lparr>sendToken = True, lastSendToken = 9, sendTokenQueue = [], sent = [],
                   refCount = (\<lambda>_. 1)\<rparr>)
   \<and> cmdReleaseSendToken
      \<lparr>current = CommandThread, getTime64 = 9, getTimeout = 1000,
       LB_TIMEOUT_INDEFINITE = 0xFFFFFFFF\<rparr>
      \<lparr>sendToken = False, lastSendToken = 3, sendTokenQueue = [], sent = [],
       refCount = (\<lambda>_. 1)\<rparr>
    = Inr (True, \<lparr>sendToken = True, lastSendToken = 9, sendTokenQueue = [], sent = [],
                   refCount = (\<lambda>_. 1)\<rparr>)
   \<and> cmdReleaseSendToken
      \<lparr>current = CommandThread, getTime64 = 9, getTimeout = 1000,
       LB_TIMEOUT_INDEFINITE = 0xFFFFFFFF\<rparr>
      \<lparr>sendToken = False, lastSendToken = 3,
       sendTokenQueue = [\<lparr>cmdID = 1, getNode = Some 7, requestID = 42,
          packetNodeID = 0, packetNodeType = 0, packetNodeData = []\<rparr>,
                         \<lparr>cmdID = 2, getNode = Some 8, requestID = 43,
          packetNodeID = 0, packetNodeType = 0, packetNodeData = []\<rparr>],
       sent = [], refCount = (\<lambda>_. 1)\<rparr>
    = Inr (True, \<lparr>sendToken = False, lastSendToken = 9,
                   sendTokenQueue = [\<lparr>cmdID = 2, getNode = Some 8, requestID = 43,
          packetNodeID = 0, packetNodeType = 0, packetNodeData = []\<rparr>],
                   sent = [(7, NodeAcquireSendTokenReplyPacket 42)],
                   refCount = (\<lambda>_. 1)(1 := 0)\<rparr>)"
  using cmdReleaseSendToken_cases
          [of "\<lparr>current = CommandThread, getTime64 = 9, getTimeout = 1000,
                LB_TIMEOUT_INDEFINITE = 0xFFFFFFFF\<rparr>"
              "\<lparr>sendToken = True, lastSendToken = 3, sendTokenQueue = [], sent = [],
                refCount = (\<lambda>_. 1)\<rparr>"]
        cmdReleaseSendToken_cases
          [of "\<lparr>current = CommandThread, getTime64 = 9, getTimeout = 1000,
                LB_TIMEOUT_INDEFINITE = 0xFFFFFFFF\<rparr>"
              "\<lparr>sendToken = False, lastSendToken = 3, sendTokenQueue = [], sent = [],
                refCount = (\<lambda>_. 1)\<rparr>"]
        cmdReleaseSendToken_cases
          [of "\<lparr>current = CommandThread, getTime64 = 9, getTimeout = 1000,
                LB_TIMEOUT_INDEFINITE = 0xFFFFFFFF\<rparr>"
              "\<lparr>sendToken = False, lastSendToken = 3,
                sendTokenQueue = [\<lparr>cmdID = 1, getNode = Some 7, requestID = 42,
          packetNodeID = 0, packetNodeType = 0, packetNodeData = []\<rparr>,
                                  \<lparr>cmdID = 2, getNode = Some 8, requestID = 43,
          packetNodeID = 0, packetNodeType = 0, packetNodeData = []\<rparr>],
                sent = [], refCount = (\<lambda>_. 1)\<rparr>"]
  by (simp add: release_def)

text \<open>
  C7, as stated, fails: a release while the bit is true is not a no-op on the token
  state. The last release was at time 0; the release at time 2000 leaves the bit and
  the queue as they are and sets the time of the last release, which the next acquire
  compares with the timeout, to 2000.
\<close>

theorem cmdReleaseSendToken_not_noop:
  "cmdReleaseSendToken
      \<lparr>current = CommandThread, getTime64 = 2000, getTimeout = 1000,
       LB_TIMEOUT_INDEFINITE = 0xFFFFFFFF\<rparr>
      \<lparr>sendToken = True, lastSendToken = 0, sendTokenQueue = [], sent = [],
       refCount = (\<lambda>_. 1)\<rparr>
    = Inr (True, \<lparr>sendToken = True, lastSendToken = 2000, sendTokenQueue = [], sent = [],
                   refCount = (\<lambda>_. 1)\<rparr>)
   \<and> cmdReleaseSendToken
      \<lparr>current = CommandThread, getTime64 = 2000, getTimeout = 1000,
       LB_TIMEOUT_INDEFINITE = 0xFFFFFFFF\<rparr>
      \<lparr>sendToken = True, lastSendToken = 0, sendTokenQueue = [], sent = [],
       refCount = (\<lambda>_. 1)\<rparr>
    \<noteq> Inr (True, \<lparr>sendToken = True, lastSendToken = 0, sendTokenQueue = [], sent = [],
                   refCount = (\<lambda>_. 1)\<rparr>)"
  by (simp add: cmdReleaseSendToken_def)

text \<open>
  C9. Called outside the receiver thread, \<open>releaseSendToken\<close> leaves the caller's
  handle null in every case; with a null handle nothing is sent, with a handle to a
  node exactly one release packet is sent to that node.
\<close>

theorem releaseSendToken_resets_handle:
  assumes "cur \<noteq> ReceiverThread"
  shows "\<exists>out'. releaseSendToken cur node out = Inr (None, out')
           \<and> (node = None \<longrightarrow> out' = out)
           \<and> (\<forall>n. node = Some n \<longrightarrow> out' = out @ [(n, NodeReleaseSendTokenPacket)])"
  using assms by (cases node) (simp_all add: releaseSendToken_def)

theorem releaseSendToken_resets_handle_witness:
  "ApplicationThread \<noteq> ReceiverThread
   \<and> releaseSendToken ApplicationThread None [] = Inr (None, [])
   \<and> releaseSendToken ApplicationThread (Some 4) [] =
       Inr (None, [(4, NodeReleaseSendTokenPacket)])"
  using releaseSendToken_resets_handle [of ApplicationThread None "[]"]
        releaseSendToken_resets_handle [of ApplicationThread "Some 4" "[]"]
  by simp

section \<open>Properties of the connection handshake\<close>

text \<open>
  C6. A CONNECT command (handled in the receiver thread, arriving with no node on a
  connection that is not yet in the connection map and has its size read pending)
  whose node id maps to a peer in state CONNECTED: the handler sends on that
  connection a reply with node id ZERO, removes and closes the connection, and
  changes neither map nor any node.
\<close>

theorem cmdConnect_refuses_connected_peer:
  assumes "getNode command = None" and "cur = ReceiverThread"
    and "heap ln (this ln) = Some me" and "packetNodeID command \<noteq> getNodeID me"
    and "connectionNodes ln connection = None"
    and "nodes ln (packetNodeID command) = Some p" and "heap ln p = Some peer"
    and "state peer = STATE_CONNECTED"
    and "connectionState (connections ln connection) \<noteq> ConnConnected
         \<or> recvData (connections ln connection) \<noteq> None"
    and "recvData (connections ln connection) = None
         \<or> recvData (connections ln connection) = Some 8"
  shows "\<exists>ln'. cmdConnect ops cur connection command ln = Inr (True, ln')
         \<and> ln' = ln\<lparr>connectionSent := connectionSent ln @
                       [(connection, NodeConnectReplyPacket ZERO (requestID command)
                                       (NODETYPE_CO_INVALID ops) [])],
                     incoming := remove1 connection (incoming ln),
                     connections := (connections ln)
                       (connection := \<lparr>connectionState = ConnClosed, recvData = None\<rparr>)\<rparr>
         \<and> nodes ln' = nodes ln \<and> connectionNodes ln' = connectionNodes ln
         \<and> heap ln' = heap ln"
  using assms
  by (auto simp: cmdConnect_def isConnected_def removeConnection_def
        newNodeConnectReplyPacket_def Let_def)

theorem cmdConnect_refuses_connected_peer_witness:
  "cmdConnect exampleOps ReceiverThread 3
      \<lparr>cmdID = 1, getNode = None, requestID = 5, packetNodeID = 2, packetNodeType = 0,
       packetNodeData = ''abc''\<rparr> exampleNode
   = Inr (True, exampleNode
            \<lparr>connectionSent := [(3, NodeConnectReplyPacket ZERO 5 0 [])],
             incoming := [1, 2],
             connections := (connections exampleNode)
               (3 := \<lparr>connectionState = ConnClosed, recvData = None\<rparr>)\<rparr>)"
  using cmdConnect_refuses_connected_peer
          [of "\<lparr>cmdID = 1, getNode = None, requestID = 5, packetNodeID = 2,
                packetNodeType = 0, packetNodeData = ''abc''\<rparr>"
              ReceiverThread exampleNode
              "\<lparr>getNodeID = 1, state = STATE_LISTENING, outgoing = Some 0, getType = 0,
                outMulticast = None, multicasts = []\<rparr>"
              3 1
              "\<lparr>getNodeID = 2, state = STATE_CONNECTED, outgoing = Some 2, getType = 0,
                outMulticast = None, multicasts = []\<rparr>"
              exampleOps]
  by (simp add: exampleNode_def exampleOps_def)

text \<open>
  C5. A CONNECT_REPLY command handled in the receiver thread, arriving with no node
  on a connection that is not yet in the connection map. With node id ZERO (and the
  size read pending on the connection) the connection is removed and closed and the
  request is served with false. With a node id other than ZERO, when the node found
  for it (in the node map, or else the node registered with the request) is CLOSED,
  has the type of the reply and deserialises to the node id of the reply, the node
  becomes CONNECTED on this connection, both maps point to it, the request is served
  with true and CONNECT_ACK is sent to it; the multicast election then runs on that
  state and its outcome is the outcome of the handler.
\<close>

theorem cmdConnectReply_outcomes:
  assumes "getNode command = None" and "cur = ReceiverThread"
    and "connectionNodes ln connection = None"
  shows "(packetNodeID command = ZERO
          \<and> (connectionState (connections ln connection) \<noteq> ConnConnected
               \<or> recvData (connections ln connection) \<noteq> None)
          \<and> (recvData (connections ln connection) = None
               \<or> recvData (connections ln connection) = Some 8) \<longrightarrow>
          cmdConnectReply ops cur connection command ln =
            Inr (True, ln\<lparr>incoming := remove1 connection (incoming ln),
                          connections := (connections ln)
                            (connection := \<lparr>connectionState = ConnClosed, recvData = None\<rparr>),
                          served := served ln @ [(requestID command, False)]\<rparr>))
       \<and> (\<forall>p peer ok peer1.
            packetNodeID command \<noteq> ZERO
          \<and> (nodes ln (packetNodeID command) = Some p
              \<or> nodes ln (packetNodeID command) = None
                \<and> requestID command \<noteq> LB_UNDEFINED_UINT32 ops
                \<and> map_of (requests ln) (requestID command) = Some (Some p))
          \<and> heap ln p = Some peer \<and> state peer = STATE_CLOSED
          \<and> getType peer = packetNodeType command
          \<and> deserialize ops (packetNodeData command) peer = (ok, [], peer1)
          \<and> getNodeID peer1 = packetNodeID command \<longrightarrow>
          cmdConnectReply ops cur connection command ln =
            (case connectMulticast ops p
                    (ln\<lparr>heap := (heap ln)(p \<mapsto> peer1\<lparr>outgoing := Some connection,
                                                      state := STATE_CONNECTED\<rparr>),
                        connectionNodes := (connectionNodes ln)(connection \<mapsto> p),
                        nodes := (nodes ln)(packetNodeID command \<mapsto> p),
                        served := served ln @ [(requestID command, True)],
                        nodeSent := nodeSent ln @ [(p, NodeConnectAckPacket)]\<rparr>) of
               Inl e \<Rightarrow> Inl e
             | Inr ln' \<Rightarrow> Inr (True, ln')))"
  using assms
  by (auto simp: cmdConnectReply_def connectReplyAccept_def isConnected_def
        removeConnection_def serveRequest_def Let_def)

theorem cmdConnectReply_outcomes_witness:
  "cmdConnectReply exampleOps ReceiverThread 3
      \<lparr>cmdID = 1, getNode = None, requestID = 7, packetNodeID = 0, packetNodeType = 0,
       packetNodeData = []\<rparr> exampleNode
   = Inr (True, exampleNode
            \<lparr>incoming := [1, 2],
             connections := (connections exampleNode)
               (3 := \<lparr>connectionState = ConnClosed, recvData = None\<rparr>),
             served := [(7, False)]\<rparr>)
   \<and> cmdConnectReply exampleOps ReceiverThread 3
      \<lparr>cmdID = 2, getNode = None, requestID = 7, packetNodeID = 3, packetNodeType = 0,
       packetNodeData = ''abc''\<rparr> exampleNode
   = Inr (True, exampleNode
            \<lparr>heap := (heap exampleNode)
               (2 \<mapsto> \<lparr>getNodeID = 3, state = STATE_CONNECTED, outgoing = Some 3, getType = 0,
                       outMulticast = None, multicasts = []\<rparr>),
             connectionNodes := (connectionNodes exampleNode)(3 \<mapsto> 2),
             nodes := (nodes exampleNode)(3 \<mapsto> 2),
             served := [(7, True)],
             nodeSent := [(2, NodeConnectAckPacket)]\<rparr>)"
proof -
  let ?refusal = "\<lparr>cmdID = 1, getNode = None, requestID = 7, packetNodeID = 0,
                   packetNodeType = 0, packetNodeData = []\<rparr>"
  let ?reply = "\<lparr>cmdID = 2, getNode = None, requestID = 7, packetNodeID = 3,
                 packetNodeType = 0, packetNodeData = ''abc''\<rparr>"
  let ?peer = "\<lparr>getNodeID = 0, state = STATE_CLOSED, outgoing = None, getType = 0,
                outMulticast = None, multicasts = []\<rparr>"
  have pre: "connectionNodes exampleNode 3 = None"
    by (simp add: exampleNode_def)
  note run = cmdConnectReply_outcomes [OF _ refl pre, of _ exampleOps]
  have first: "cmdConnectReply exampleOps ReceiverThread 3 ?refusal exampleNode
       = Inr (True, exampleNode
            \<lparr>incoming := [1, 2],
             connections := (connections exampleNode)
               (3 := \<lparr>connectionState = ConnClosed, recvData = None\<rparr>),
             served := [(7, False)]\<rparr>)"
    using run [of ?refusal] by (simp add: exampleNode_def ZERO_def)
  have second: "cmdConnectReply exampleOps ReceiverThread 3 ?reply exampleNode
       = Inr (True, exampleNode
            \<lparr>heap := (heap exampleNode)
               (2 \<mapsto> \<lparr>getNodeID = 3, state = STATE_CONNECTED, outgoing = Some 3, getType = 0,
                       outMulticast = None, multicasts = []\<rparr>),
             connectionNodes := (connectionNodes exampleNode)(3 \<mapsto> 2),
             nodes := (nodes exampleNode)(3 \<mapsto> 2),
             served := [(7, True)],
             nodeSent := [(2, NodeConnectAckPacket)]\<rparr>)"
    using run [of ?reply, THEN conjunct2, rule_format, of 2 ?peer True "?peer\<lparr>getNodeID := 3\<rparr>"]
    by (simp add: exampleNode_def exampleOps_def ZERO_def)
  from first second show ?thesis by simp
qed

section \<open>Properties of \<^verbatim>\<open>close\<close>\<close>

text \<open>
  C10. When the node is not LISTENING, \<open>close\<close> returns false and leaves the whole
  state as it was (no packet is sent). Whenever \<open>close\<close> returns true, the node was
  LISTENING, the stop packet was sent, the join of the receiver thread on the state
  with that packet succeeded, and the result is the state that \<open>cleanup\<close> makes of
  the state the threads left.
\<close>

theorem close_result:
  "(\<forall>me. heap ln (this ln) = Some me \<and> state me \<noteq> STATE_LISTENING \<longrightarrow>
       close ops ln = Inr (False, ln))
   \<and> (\<forall>ln'. close ops ln = Inr (True, ln') \<longrightarrow>
        (\<exists>me ln1. heap ln (this ln) = Some me \<and> state me = STATE_LISTENING
           \<and> receiverThreadJoin ops (ln\<lparr>nodeSent := nodeSent ln @ [(this ln, NodeStopPacket)]\<rparr>)
               = (True, ln1)
           \<and> cleanup ops ln1 = Inr ln' \<and> requests ln' = []))"
  by (auto simp: close_def split: option.splits if_splits prod.splits sum.splits)

theorem close_result_witness:
  "close exampleOps
     (exampleNode\<lparr>heap := (heap exampleNode)
        (0 \<mapsto> \<lparr>getNodeID = 1, state = STATE_CLOSED, outgoing = Some 0, getType = 0,
                outMulticast = None, multicasts = []\<rparr>)\<rparr>)
   = Inr (False, exampleNode\<lparr>heap := (heap exampleNode)
        (0 \<mapsto> \<lparr>getNodeID = 1, state = STATE_CLOSED, outgoing = Some 0, getType = 0,
                outMulticast = None, multicasts = []\<rparr>)\<rparr>)
   \<and> (\<exists>ln'. close exampleOps (exampleNode\<lparr>requests := []\<rparr>) = Inr (True, ln')
         \<and> incoming ln' = [] \<and> nodeSent ln' = [(0, NodeStopPacket)])
   \<and> (\<exists>me. heap (exampleNode\<lparr>requests := []\<rparr>) 0 = Some me \<and> state me = STATE_LISTENING)"
proof -
  let ?closed = "exampleNode\<lparr>heap := (heap exampleNode)
        (0 \<mapsto> \<lparr>getNodeID = 1, state = STATE_CLOSED, outgoing = Some 0, getType = 0,
                outMulticast = None, multicasts = []\<rparr>)\<rparr>"
  have "close exampleOps ?closed = Inr (False, ?closed)"
    using close_result [of ?closed exampleOps, THEN conjunct1]
    by (simp add: exampleNode_def)
  moreover have run: "\<exists>ln'. close exampleOps (exampleNode\<lparr>requests := []\<rparr>) = Inr (True, ln')
         \<and> incoming ln' = [] \<and> nodeSent ln' = [(0, NodeStopPacket)]"
    by (simp add: close_def exampleNode_def exampleOps_def cleanup_def cleanupStep_def
          removeConnection_def Let_def)
  moreover have "\<exists>me. heap (exampleNode\<lparr>requests := []\<rparr>) 0 = Some me \<and> state me = STATE_LISTENING"
    using run close_result [of "exampleNode\<lparr>requests := []\<rparr>" exampleOps, THEN conjunct2]
    by (auto simp: exampleNode_def)
  ultimately show ?thesis by blast
qed

section \<open>Properties of the redispatch of pending commands\<close>

lemma redispatchPass_succeeds:
  "\<forall>c \<in> set pending. isValid ops c \<and> (\<forall>s. \<exists>d s1. dispatchCommand ops s c = Inr (d, s1)) \<Longrightarrow>
     \<exists>changes pending' s'. redispatchPass ops before pending s = Inr (changes, pending', s')"
proof (induction pending arbitrary: before s)
  case Nil
  show ?case by auto
next
  case (Cons command rest)
  from Cons.prems obtain dispatched s1 where
    d: "dispatchCommand ops s command = Inr (dispatched, s1)" and v: "isValid ops command"
    by force
  from Cons.prems
  have "\<forall>c \<in> set rest. isValid ops c \<and> (\<forall>s. \<exists>d s1. dispatchCommand ops s c = Inr (d, s1))"
    by simp
  from Cons.IH [OF this, of "before @ [command]" s1] d v show ?case
    by (cases dispatched) auto
qed

lemma redispatchPass_subset:
  "redispatchPass ops before pending s = Inr (changes, pending', s') \<Longrightarrow>
     set pending' \<subseteq> set before \<union> set pending"
proof (induction pending arbitrary: before s)
  case Nil
  then show ?case by auto
next
  case (Cons command rest)
  from Cons.prems obtain dispatched s1 where
    d: "dispatchCommand ops s command = Inr (dispatched, s1)" and v: "isValid ops command"
    by (auto split: if_splits sum.splits)
  show ?case
  proof (cases dispatched)
    case True
    with Cons.prems d v show ?thesis by auto
  next
    case False
    with Cons.prems d v
    have "redispatchPass ops (before @ [command]) rest s1 = Inr (changes, pending', s')"
      by simp
    from Cons.IH [OF this] show ?thesis by auto
  qed
qed

lemma redispatchLoop_result:
  "redispatchLoop ops changes pending s = Inr (pending', s') \<Longrightarrow>
     length pending' \<le> length pending \<and>
     (pending' = [] \<or> \<not> changes \<and> pending' = pending \<and> s' = s
        \<or> (\<exists>s0. redispatchPass ops [] pending' s0 = Inr (False, pending', s')))"
proof (induction ops changes pending s rule: redispatchLoop.induct)
  case (1 ops changes pending s)
  show ?case
  proof (cases "changes \<and> pending \<noteq> []")
    case False
    with "1.prems" show ?thesis
      by (auto simp: redispatchLoop.simps [of ops changes pending s])
  next
    case True
    have unfold: "redispatchLoop ops changes pending s =
        (case redispatchPass ops [] pending s of
           Inl e \<Rightarrow> Inl e
         | Inr (changes', pending', s') \<Rightarrow> redispatchLoop ops changes' pending' s')"
      using True by (subst redispatchLoop.simps) simp
    with "1.prems" obtain ch p1 s1 where
      pass: "redispatchPass ops [] pending s = Inr (ch, p1, s1)"
      and rec: "redispatchLoop ops ch p1 s1 = Inr (pending', s')"
      by (auto split: sum.splits)
    from "1.IH" [OF True pass refl refl rec]
    have ih: "length pending' \<le> length p1 \<and>
       (pending' = [] \<or> \<not> ch \<and> pending' = p1 \<and> s' = s1
        \<or> (\<exists>s0. redispatchPass ops [] pending' s0 = Inr (False, pending', s')))" .
    from redispatchPass_length [OF pass] have len: "length p1 \<le> length pending"
      and same: "\<not> ch \<Longrightarrow> p1 = pending"
      by (cases ch; simp)+
    show ?thesis
    proof (cases ch)
      case True
      with ih len show ?thesis by auto
    next
      case False
      with same have "p1 = pending" by simp
      with ih len pass False show ?thesis by auto
    qed
  qed
qed

lemma redispatchLoop_succeeds:
  "\<forall>c \<in> set pending. isValid ops c \<and> (\<forall>s. \<exists>d s1. dispatchCommand ops s c = Inr (d, s1)) \<Longrightarrow>
     \<exists>pending' s'. redispatchLoop ops changes pending s = Inr (pending', s')"
proof (induction ops changes pending s rule: redispatchLoop.induct)
  case (1 ops changes pending s)
  show ?case
  proof (cases "changes \<and> pending \<noteq> []")
    case False
    then show ?thesis
      by (auto simp: redispatchLoop.simps [of ops changes pending s])
  next
    case True
    from redispatchPass_succeeds [OF "1.prems", of "[]" s] obtain ch p1 s1 where
      pass: "redispatchPass ops [] pending s = Inr (ch, p1, s1)"
      by blast
    from redispatchPass_subset [OF pass] "1.prems"
    have "\<forall>c \<in> set p1. isValid ops c \<and> (\<forall>s. \<exists>d s1. dispatchCommand ops s c = Inr (d, s1))"
      by auto
    from "1.IH" [OF True pass refl refl this] obtain p2 s2 where
      "redispatchLoop ops ch p1 s1 = Inr (p2, s2)"
      by blast
    with True pass show ?thesis
      by (subst redispatchLoop.simps) simp
  qed
qed

text \<open>
  C8. \<open>redispatchLoop\<close> is a total function (its termination proof uses the number
  of pending commands and the flag \<open>changes\<close>), so \<open>redispatchCommands\<close> returns for
  every finite pending list and every dispatcher. A pass that dispatches a command
  leaves a list that is shorter by one. When the loop ends without a failed assertion,
  its list is no longer than the initial one, and it is empty or was walked completely
  by a pass in which no command dispatched; the result is then that list if it has
  fewer than 200 entries and the failed assertion otherwise. So a list returned has
  fewer than 200 entries; and when the pending commands are valid, no handler fails an
  assertion and the list starts with fewer than 200 entries, a list is returned.
\<close>

theorem redispatchCommands_terminates:
  "(\<forall>pending' s'. redispatchPass ops [] pending s = Inr (True, pending', s') \<longrightarrow>
        Suc (length pending') = length pending)
   \<and> (\<forall>pending' s'. redispatchLoop ops True pending s = Inr (pending', s') \<longrightarrow>
         length pending' \<le> length pending
         \<and> (pending' = [] \<or> (\<exists>s0. redispatchPass ops [] pending' s0 = Inr (False, pending', s')))
         \<and> redispatchCommands ops pending s =
              (if length pending' < 200 then Inr (pending', s') else Inl AssertFailed))
   \<and> (\<forall>pending' s'. redispatchCommands ops pending s = Inr (pending', s') \<longrightarrow>
         length pending' < 200)
   \<and> ((\<forall>c \<in> set pending. isValid ops c \<and> (\<forall>s. \<exists>d s1. dispatchCommand ops s c = Inr (d, s1)))
        \<and> length pending < 200 \<longrightarrow>
        (\<exists>pending' s'. redispatchCommands ops pending s = Inr (pending', s')))"
proof -
  have one: "\<forall>pending' s'. redispatchPass ops [] pending s = Inr (True, pending', s') \<longrightarrow>
          Suc (length pending') = length pending"
    using redispatchPass_length [of ops "[]" pending s True] by auto
  have two: "\<forall>pending' s'. redispatchLoop ops True pending s = Inr (pending', s') \<longrightarrow>
         length pending' \<le> length pending
         \<and> (pending' = [] \<or> (\<exists>s0. redispatchPass ops [] pending' s0 = Inr (False, pending', s')))
         \<and> redispatchCommands ops pending s =
              (if length pending' < 200 then Inr (pending', s') else Inl AssertFailed)"
  proof (intro allI impI)
    fix pending' s'
    assume loop: "redispatchLoop ops True pending s = Inr (pending', s')"
    from redispatchLoop_result [OF loop]
    have "length pending' \<le> length pending"
      and "pending' = [] \<or> (\<exists>s0. redispatchPass ops [] pending' s0 = Inr (False, pending', s'))"
      by auto
    moreover have "redispatchCommands ops pending s =
              (if length pending' < 200 then Inr (pending', s') else Inl AssertFailed)"
      by (simp add: redispatchCommands_def loop)
    ultimately show "length pending' \<le> length pending
         \<and> (pending' = [] \<or> (\<exists>s0. redispatchPass ops [] pending' s0 = Inr (False, pending', s')))
         \<and> redispatchCommands ops pending s =
              (if length pending' < 200 then Inr (pending', s') else Inl AssertFailed)"
      by blast
  qed
  have three: "\<forall>pending' s'. redispatchCommands ops pending s = Inr (pending', s') \<longrightarrow>
         length pending' < 200"
    by (auto simp: redispatchCommands_def split: sum.splits if_splits)
  have four: "(\<forall>c \<in> set pending. isValid ops c \<and> (\<forall>s. \<exists>d s1. dispatchCommand ops s c = Inr (d, s1)))
        \<and> length pending < 200 \<longrightarrow>
        (\<exists>pending' s'. redispatchCommands ops pending s = Inr (pending', s'))"
  proof
    assume a: "(\<forall>c \<in> set pending. isValid ops c \<and> (\<forall>s. \<exists>d s1. dispatchCommand ops s c = Inr (d, s1)))
        \<and> length pending < 200"
    then obtain p1 s1 where loop: "redispatchLoop ops True pending s = Inr (p1, s1)"
      using redispatchLoop_succeeds [of pending ops True s] by blast
    from redispatchLoop_result [OF loop] a have "length p1 < 200" by simp
    with loop show "\<exists>pending' s'. redispatchCommands ops pending s = Inr (pending', s')"
      by (simp add: redispatchCommands_def)
  qed
  from one two three four show ?thesis by blast
qed

theorem redispatchCommands_terminates_witness:
  "redispatchPass exampleDispatch [] [5, 0] 0 = Inr (True, [5], 1)
   \<and> redispatchLoop exampleDispatch True [5, 0] 0 = Inr ([5], 1)
   \<and> redispatchPass exampleDispatch [] [5] 1 = Inr (False, [5], 1)
   \<and> redispatchCommands exampleDispatch [5, 0] 0 = Inr ([5], 1)
   \<and> redispatchCommands exampleDispatch [2, 1, 0] 0 = Inr ([], 3)"
  using redispatchCommands_terminates [of exampleDispatch "[5, 0]" 0]
        redispatchCommands_terminates [of exampleDispatch "[2, 1, 0]" 0]
  by (simp add: exampleDispatch_def redispatchCommands_def redispatchLoop.simps)

section \<open>Properties of the connect by node identifier\<close>

text \<open>
  Whatever the handshakes answer, the loop entered with the value \<open>tries\<close> makes at
  most \<open>tries - 1\<close> attempts, every sleep lasts at most 255 ms, and the events follow
  the retry policy for \<open>tries - 1\<close> attempts.
\<close>

lemma connectRetry_attempts:
  "connectRetry ops nodeID tries node w trace = (r, w', trace') \<Longrightarrow>
     \<exists>added. trace' = trace @ added \<and> length (filter is_Attempt added) \<le> tries - 1
        \<and> (\<forall>ms. Sleep ms \<in> set added \<longrightarrow> unat ms \<le> 255)
        \<and> retried (tries - 1) added"
proof (induction ops nodeID tries node w trace rule: connectRetry.induct)
  case (1 ops nodeID tries node w trace)
  show ?case
  proof (cases "tries - 1 = 0")
    case True
    with "1.prems" show ?thesis
      by (simp add: connectRetry.simps [of ops nodeID tries node w trace])
  next
    case False
    obtain result w1 where c: "connectNode ops node w = (result, w1)"
      by (cases "connectNode ops node w")
    obtain ms w2 where g: "rngGet ops w1 = (ms, w2)"
      by (cases "rngGet ops w1")
    have ms: "unat ms \<le> 255"
      using unsigned_less [of ms, where 'a = nat] by simp
    show ?thesis
    proof (cases result)
      case CONNECT_TRY_AGAIN
      let ?n = "case findNode ops nodeID w2 of Some found \<Rightarrow> found | None \<Rightarrow> node"
      from "1.prems" False c g CONNECT_TRY_AGAIN
      have rec: "connectRetry ops nodeID (tries - 1) ?n w2
                   (trace @ [Attempt node CONNECT_TRY_AGAIN, Sleep ms])
                  = (r, w', trace')"
        by (simp add: connectRetry.simps [of ops nodeID tries node w trace])
      from "1.IH"(1) [OF False c [symmetric] CONNECT_TRY_AGAIN g [symmetric] rec]
      obtain added where "trace' = (trace @ [Attempt node CONNECT_TRY_AGAIN, Sleep ms]) @ added"
        and "length (filter is_Attempt added) \<le> tries - 1 - 1"
        and "\<forall>ms. Sleep ms \<in> set added \<longrightarrow> unat ms \<le> 255"
        and "retried (tries - 1 - 1) added"
        by blast
      with False ms show ?thesis
        by (intro exI [of _ "[Attempt node CONNECT_TRY_AGAIN, Sleep ms] @ added"]) auto
    next
      case CONNECT_UNREACHABLE
      let ?n = "case findNode ops nodeID w1 of Some found \<Rightarrow> found | None \<Rightarrow> node"
      from "1.prems" False c CONNECT_UNREACHABLE
      have rec: "connectRetry ops nodeID (tries - 1) ?n w1
                   (trace @ [Attempt node CONNECT_UNREACHABLE])
                  = (r, w', trace')"
        by (simp add: connectRetry.simps [of ops nodeID tries node w trace])
      from "1.IH"(2) [OF False c [symmetric] CONNECT_UNREACHABLE rec]
      obtain added where "trace' = (trace @ [Attempt node CONNECT_UNREACHABLE]) @ added"
        and "length (filter is_Attempt added) \<le> tries - 1 - 1"
        and "\<forall>ms. Sleep ms \<in> set added \<longrightarrow> unat ms \<le> 255"
        and "retried (tries - 1 - 1) added"
        by blast
      with False show ?thesis
        by (intro exI [of _ "[Attempt node CONNECT_UNREACHABLE] @ added"]) auto
    qed (use "1.prems" False c in
          \<open>auto simp: connectRetry.simps [of ops nodeID tries node w trace]\<close>)
  qed
qed

text \<open>
  C4. Every call of \<^verbatim>\<open>_connect( nodeID, peer )\<close> that returns makes at most 10 attempts,
  every sleep lasts between 0 and 255 ms, and, when the call attempts a connection at
  all, its events follow the retry policy: an attempt answered by
  \<^verbatim>\<open>CONNECT_TRY_AGAIN\<close> is followed by a sleep and retried, until the attempts that the
  loop \<^verbatim>\<open>size_t tries = 10; while( --tries )\<close> allows, which are 9, are used up.
\<close>

theorem connectNodeID_retries:
  assumes "connectNodeID ops nodeID peer w = Inr (r, w', trace)"
  shows "length (filter is_Attempt trace) \<le> 10
       \<and> (\<forall>ms. Sleep ms \<in> set trace \<longrightarrow> unat ms \<le> 255)
       \<and> (trace \<noteq> [] \<longrightarrow> retried 9 trace)"
proof (cases "\<exists>node w1. connectRetry ops nodeID 10 node w1 [] = (r, w', trace)")
  case True
  then obtain node w1 where "connectRetry ops nodeID 10 node w1 [] = (r, w', trace)"
    by blast
  from connectRetry_attempts [OF this] show ?thesis
    by auto
next
  case False
  with assms have "trace = []"
    by (auto simp: connectNodeID_def split: if_splits option.splits prod.splits)
  then show ?thesis by simp
qed

theorem connectNodeID_retries_witness:
  "connectNodeID exampleCollision 2 1 0 =
     Inr (Some 5, 2, [Attempt 5 CONNECT_TRY_AGAIN, Sleep 200,
                      Attempt 5 CONNECT_TRY_AGAIN, Sleep 31, Attempt 5 CONNECT_OK])
   \<and> length (filter is_Attempt [Attempt 5 CONNECT_TRY_AGAIN, Sleep 200,
                      Attempt 5 CONNECT_TRY_AGAIN, Sleep 31, Attempt 5 CONNECT_OK]) \<le> 10
   \<and> retried 9 [Attempt 5 CONNECT_TRY_AGAIN, Sleep 200,
                      Attempt 5 CONNECT_TRY_AGAIN, Sleep 31, Attempt 5 CONNECT_OK]"
proof -
  have run: "connectNodeID exampleCollision 2 1 0 =
     Inr (Some 5, 2, [Attempt 5 CONNECT_TRY_AGAIN, Sleep 200,
                      Attempt 5 CONNECT_TRY_AGAIN, Sleep 31, Attempt 5 CONNECT_OK])"
    by (simp add: connectNodeID_def exampleCollision_def ZERO_def connectRetry.simps)
  from connectNodeID_retries [OF run] run show ?thesis
    by simp
qed

text \<open>
  The longest run: the node answers every handshake with \<^verbatim>\<open>CONNECT_TRY_AGAIN\<close>. The
  call makes 9 attempts, each followed by a sleep, and gives up.
\<close>

lemma connectNodeID_nine_attempts:
  "connectNodeID exampleConnect 2 1 0 =
     Inr (None, 9,
          [Attempt 5 CONNECT_TRY_AGAIN, Sleep 17, Attempt 5 CONNECT_TRY_AGAIN, Sleep 17,
           Attempt 5 CONNECT_TRY_AGAIN, Sleep 17, Attempt 5 CONNECT_TRY_AGAIN, Sleep 17,
           Attempt 5 CONNECT_TRY_AGAIN, Sleep 17, Attempt 5 CONNECT_TRY_AGAIN, Sleep 17,
           Attempt 5 CONNECT_TRY_AGAIN, Sleep 17, Attempt 5 CONNECT_TRY_AGAIN, Sleep 17,
           Attempt 5 CONNECT_TRY_AGAIN, Sleep 17])"
  by (simp add: connectNodeID_def exampleConnect_def ZERO_def connectRetry.simps)


section \<open>Properties of the stream of object data packets\<close>

text \<open>
  An accepted packet makes the stream ready exactly when it is the last packet (or the
  stream was ready already). On a newly constructed stream a sequence of packets is
  accepted exactly when the packet at position \<open>i\<close> has the sequence number \<open>i\<close> and
  all packets have one version; then the deque holds the null command of the
  constructor followed by the packets in order, and the stream is ready exactly when
  one of them was a last packet. Any other sequence ends in the failed assertion.
\<close>

lemma addDataPacket_ready:
  "addDataPacket cur packet s = Inr s' \<Longrightarrow> ready s' = (ready s \<or> isLast packet)"
  by (auto simp: addDataPacket_def Let_def setReady_def split: if_splits option.splits)

lemma inSequence_snoc:
  "inSequence (packets @ [packet]) =
     (inSequence packets \<and> sequence packet = of_nat (length packets)
      \<and> (packets \<noteq> [] \<longrightarrow> version packet = version (packets ! 0)))"
proof -
  have "inSequence (packets @ [packet]) =
          ((\<forall>i < length packets. sequence ((packets @ [packet]) ! i) = of_nat i
                \<and> version ((packets @ [packet]) ! i) = version ((packets @ [packet]) ! 0))
           \<and> sequence ((packets @ [packet]) ! length packets) = of_nat (length packets)
           \<and> version ((packets @ [packet]) ! length packets) = version ((packets @ [packet]) ! 0))"
    unfolding inSequence_def by (simp add: less_Suc_eq all_conj_distrib)
  also have "\<dots> = (inSequence packets \<and> sequence packet = of_nat (length packets)
      \<and> (packets \<noteq> [] \<longrightarrow> version packet = version (packets ! 0)))"
  proof (cases "packets = []")
    case True
    then show ?thesis by (simp add: inSequence_def)
  next
    case False
    then have zero: "(packets @ [packet]) ! 0 = packets ! 0"
      by (simp add: nth_append)
    show ?thesis
      unfolding zero inSequence_def using False by (simp add: nth_append)
  qed
  finally show ?thesis .
qed

lemma addDataPackets_append:
  "addDataPackets cur (ps @ qs) s =
     (case addDataPackets cur ps s of Inl e \<Rightarrow> Inl e | Inr s1 \<Rightarrow> addDataPackets cur qs s1)"
  by (induction ps arbitrary: s) (auto split: sum.splits)

lemma addDataPacket_first:
  "addDataPacket cur packet (newObjectDataIStream invalid) =
     (if sequence packet = 0
      then Inr \<lparr>commands = [None, Some packet], retained = 1, streamVersion = invalid,
               streamThread = Some cur, ready = isLast packet\<rparr>
      else Inl AssertFailed)"
  by (simp add: addDataPacket_def newObjectDataIStream_def setReady_def Let_def)

lemma addDataPacket_next:
  assumes "packets \<noteq> []"
  shows "addDataPacket cur packet
           \<lparr>commands = None # map Some packets, retained = n, streamVersion = invalid,
            streamThread = Some cur, ready = r\<rparr> =
     (if sequence packet = sequence (last packets) + 1 \<and> version packet = version (last packets)
      then Inr \<lparr>commands = None # map Some (packets @ [packet]), retained = Suc n,
               streamVersion = invalid, streamThread = Some cur,
               ready = (r \<or> isLast packet)\<rparr>
      else Inl AssertFailed)"
proof -
  obtain q qs where "packets = qs @ [q]"
    using assms by (cases packets rule: rev_cases) auto
  then show ?thesis
    by (simp add: addDataPacket_def Let_def setReady_def)
qed

lemma addDataPackets_constructed:
  "addDataPackets cur packets (newObjectDataIStream invalid) =
     (if inSequence packets
      then Inr \<lparr>commands = None # map Some packets, retained = length packets,
               streamVersion = invalid,
               streamThread = (if packets = [] then None else Some cur),
               ready = (\<exists>p \<in> set packets. isLast p)\<rparr>
      else Inl AssertFailed)"
proof (induction packets rule: rev_induct)
  case Nil
  show ?case by (simp add: inSequence_def newObjectDataIStream_def)
next
  case (snoc packet packets)
  show ?case
  proof (cases "inSequence packets")
    case False
    with snoc show ?thesis
      by (simp add: addDataPackets_append inSequence_snoc)
  next
    case True
    note seq = this
    show ?thesis
    proof (cases "packets = []")
      case True
      then show ?thesis
        by (simp add: addDataPacket_first inSequence_snoc inSequence_def)
    next
      case False
      then have lastp: "last packets = packets ! (length packets - 1)"
        by (simp add: last_conv_nth)
      from False have idx: "length packets - 1 < length packets"
        by simp
      from seq [unfolded inSequence_def, rule_format, OF idx]
      have sl: "sequence (last packets) = of_nat (length packets - 1)"
        and vl: "version (last packets) = version (packets ! 0)"
        unfolding lastp by simp_all
      have suc: "(of_nat (length packets - 1) :: 32 word) + 1 = of_nat (length packets)"
        using False by (cases packets) simp_all
      have run: "addDataPackets cur (packets @ [packet]) (newObjectDataIStream invalid) =
                   addDataPacket cur packet
                     \<lparr>commands = None # map Some packets, retained = length packets,
                      streamVersion = invalid, streamThread = Some cur,
                      ready = (\<exists>p \<in> set packets. isLast p)\<rparr>"
        using snoc seq False by (simp add: addDataPackets_append split: sum.splits)
      show ?thesis
        unfolding run addDataPacket_next [OF False] inSequence_snoc sl vl suc
        using seq False by auto
    qed
  qed
qed

text \<open>
  C3. The claim covers the calls since the last \<open>reset\<close> as well. \<open>reset\<close> leaves the
  deque empty, without the null command of the constructor, so the test
  \<^verbatim>\<open>_commands.size() < 2\<close> holds for the first two packets. First run, after a reset:
  the packets with the sequence numbers 0 and 1 and one version; the second packet
  fails the assertion \<^verbatim>\<open>packet->sequence == 0\<close>. Second run, after a reset: two
  packets with the sequence number 0 and different versions; both are accepted, and
  the deque violates the invariant. Third run: on a newly constructed stream the
  packets of the first run are accepted.
\<close>

theorem addDataPackets_after_reset:
  "addDataPackets ReceiverThread
      [\<lparr>sequence = 0, version = 1, dataSize = 8, isLast = False\<rparr>,
       \<lparr>sequence = 1, version = 1, dataSize = 8, isLast = True\<rparr>]
      (reset 0xFFFFFFFE (newObjectDataIStream 0xFFFFFFFE))
     = Inl AssertFailed
   \<and> addDataPackets ReceiverThread
      [\<lparr>sequence = 0, version = 1, dataSize = 8, isLast = False\<rparr>,
       \<lparr>sequence = 0, version = 2, dataSize = 8, isLast = True\<rparr>]
      (reset 0xFFFFFFFE (newObjectDataIStream 0xFFFFFFFE))
     = Inr \<lparr>commands = [Some \<lparr>sequence = 0, version = 1, dataSize = 8, isLast = False\<rparr>,
                            Some \<lparr>sequence = 0, version = 2, dataSize = 8, isLast = True\<rparr>],
             retained = 2, streamVersion = 0xFFFFFFFE, streamThread = Some ReceiverThread, ready = True\<rparr>
   \<and> addDataPackets ReceiverThread
      [\<lparr>sequence = 0, version = 1, dataSize = 8, isLast = False\<rparr>,
       \<lparr>sequence = 1, version = 1, dataSize = 8, isLast = True\<rparr>]
      (newObjectDataIStream 0xFFFFFFFE)
     = Inr \<lparr>commands = [None,
                            Some \<lparr>sequence = 0, version = 1, dataSize = 8, isLast = False\<rparr>,
                            Some \<lparr>sequence = 1, version = 1, dataSize = 8, isLast = True\<rparr>],
             retained = 2, streamVersion = 0xFFFFFFFE, streamThread = Some ReceiverThread, ready = True\<rparr>"
  by (simp add: addDataPacket_def reset_def newObjectDataIStream_def setReady_def Let_def)

section \<open>Properties of the child reconciliation\<close>

subsection \<open>The search\<close>

lemma find_if_split:
  "find_if objs uuid before xs = Inr (Some (c, old1)) \<Longrightarrow>
     \<exists>ys zs obj. xs = ys @ Some c # zs \<and> old1 = before @ ys @ zs
        \<and> objs c = Some obj \<and> getID obj = uuid"
proof (induction xs arbitrary: before)
  case Nil
  then show ?case by simp
next
  case (Cons candidate rest)
  from Cons.prems obtain d obj where cand: "candidate = Some d" and obj: "objs d = Some obj"
    by (auto split: option.splits)
  show ?case
  proof (cases "getID obj = uuid")
    case True
    with Cons.prems cand obj have "c = d" and "old1 = before @ rest"
      by simp_all
    with cand obj True show ?thesis
      by (intro exI [of _ "[]"] exI [of _ rest] exI [of _ obj]) simp
  next
    case False
    with Cons.prems cand obj
    have "find_if objs uuid (before @ [candidate]) rest = Inr (Some (c, old1))"
      by simp
    from Cons.IH [OF this] obtain ys zs obj' where
      "rest = ys @ Some c # zs" and "old1 = (before @ [candidate]) @ ys @ zs"
      and "objs c = Some obj'" and "getID obj' = uuid"
      by blast
    then show ?thesis
      by (intro exI [of _ "candidate # ys"] exI [of _ zs] exI [of _ obj']) simp
  qed
qed

lemma find_if_None:
  "find_if objs uuid before xs = Inr None \<Longrightarrow>
     \<forall>c obj. Some c \<in> set xs \<and> objs c = Some obj \<longrightarrow> getID obj \<noteq> uuid"
  by (induction xs arbitrary: before)
     (auto split: option.splits if_splits)

text \<open>The child found is erased: no other entry of the vector is this child.\<close>

lemma find_if_erased:
  assumes found: "find_if objs uuid [] old = Inr (Some (c, old1))"
    and dist: "distinct [x \<leftarrow> old. x \<noteq> None]"
  shows "Some c \<in> set old" and "old1 = [x \<leftarrow> old. x \<noteq> Some c]"
    and "\<exists>obj. objs c = Some obj \<and> getID obj = uuid"
proof -
  from find_if_split [OF found] obtain ys zs obj where
    old: "old = ys @ Some c # zs" and old1: "old1 = ys @ zs"
    and obj: "objs c = Some obj" "getID obj = uuid"
    by auto
  from old show "Some c \<in> set old" by simp
  from obj show "\<exists>obj. objs c = Some obj \<and> getID obj = uuid" by simp
  from dist old have "Some c \<notin> set ys" and "Some c \<notin> set zs"
    by auto
  then have "[x \<leftarrow> ys. x \<noteq> Some c] = ys" and "[x \<leftarrow> zs. x \<noteq> Some c] = zs"
    by (auto simp: filter_id_conv)
  with old old1 show "old1 = [x \<leftarrow> old. x \<noteq> Some c]"
    by simp
qed

subsection \<open>One round of the rebuild loop\<close>

lemma extends_refl: "extends st st"
  by (simp add: extends_def)

lemma extends_trans: "extends st st1 \<Longrightarrow> extends st1 st2 \<Longrightarrow> extends st st2"
  by (auto simp: extends_def)

lemma childID_extends:
  assumes "extends st st'" and "\<forall>c. x = Some c \<longrightarrow> c < nextObject st"
  shows "childID st' x = childID st x"
  using assms by (cases x) (simp_all add: childID_def extends_def)

lemma rebuild_round:
  assumes run: "rebuild ops result (v # versions) old st = Inr (old1, st1)"
    and fresh: "\<forall>c. Some c \<in> set old \<longrightarrow> c < nextObject st"
    and dist: "distinct [x \<leftarrow> old. x \<noteq> None]"
  shows "\<exists>slot old' st'.
           rebuild ops result versions old' st' = Inr (old1, st1)
         \<and> extends st st'
         \<and> vectors st' = (vectors st)(result := vectors st result @ [slot])
         \<and> calls st' = calls st @ slotCalls ops st v slot
         \<and> [x \<leftarrow> old'. x \<noteq> None] = [x \<leftarrow> old. x \<noteq> None \<and> x \<noteq> slot]
         \<and> set old' \<subseteq> set old
         \<and> (slot = None \<or> slot \<in> set old
              \<or> slot = Some (nextObject st) \<and> nextObject st' = Suc (nextObject st))
         \<and> slotContract ops st old [] v slot"
proof (cases "ident v = ZERO")
  case True
  let ?st' = "push_back result None st"
  from run True have "rebuild ops result versions old ?st' = Inr (old1, st1)"
    by simp
  moreover have "extends st ?st'"
    by (simp add: extends_def push_back_def)
  moreover have "vectors ?st' = (vectors st)(result := vectors st result @ [None])"
    by (simp add: push_back_def)
  moreover have "calls ?st' = calls st @ slotCalls ops st v None"
    by (simp add: push_back_def slotCalls_def)
  moreover have "[x \<leftarrow> old. x \<noteq> None] = [x \<leftarrow> old. x \<noteq> None \<and> x \<noteq> None]"
    by simp
  moreover have "slotContract ops st old [] v None"
    using True by (simp add: slotContract_def)
  ultimately show ?thesis by blast
next
  case False
  note nonzero = this
  from run nonzero obtain found where
    found: "find_if (objects st) (ident v) [] old = Inr found"
    by (cases "find_if (objects st) (ident v) [] old") auto
  show ?thesis
  proof (cases found)
    case None
    let ?c = "nextObject st"
    let ?st' = "push_back result (Some ?c) (mapObject ?c v (snd (create st)))"
    from run nonzero found None
    have slave: "\<not> ownerIsMaster ops"
      and rec: "rebuild ops result versions old ?st' = Inr (old1, st1)"
      by (auto simp: create_def split: if_splits)
    have ext: "extends st ?st'"
      by (simp add: extends_def push_back_def mapObject_def create_def call_def)
    have vec: "vectors ?st' = (vectors st)(result := vectors st result @ [Some ?c])"
      by (simp add: push_back_def mapObject_def create_def call_def)
    have cs: "calls ?st' = calls st @ slotCalls ops st v (Some ?c)"
      by (simp add: push_back_def mapObject_def create_def call_def slotCalls_def)
    have nxt: "nextObject ?st' = Suc ?c"
      by (simp add: push_back_def mapObject_def create_def call_def)
    from fresh have notin: "Some ?c \<notin> set old"
      by auto
    then have keep: "[x \<leftarrow> old. x \<noteq> None] = [x \<leftarrow> old. x \<noteq> None \<and> x \<noteq> Some ?c]"
      by (intro filter_cong) auto
    from find_if_None found None
    have "\<forall>c' obj'. Some c' \<in> set old \<and> objects st c' = Some obj' \<longrightarrow> getID obj' \<noteq> ident v"
      by blast
    then have "\<forall>x \<in> set old. childID st x \<noteq> Some (ident v)"
      by (auto simp: childID_def split: option.splits)
    with nonzero slave have "slotContract ops st old [] v (Some ?c)"
      by (simp add: slotContract_def)
    with rec ext vec cs keep nxt show ?thesis
      by blast
  next
    case (Some pair)
    obtain child old' where pair: "pair = (child, old')"
      by (cases pair)
    let ?version = "if ownerIsMaster ops then VERSION_HEAD ops else objectVersion v"
    let ?st' = "push_back result (Some child) (call (Sync child ?version) st)"
    from run nonzero found Some pair
    have rec: "rebuild ops result versions old' ?st' = Inr (old1, st1)"
      by simp
    from found Some pair
    have f: "find_if (objects st) (ident v) [] old = Inr (Some (child, old'))"
      by simp
    note fe = find_if_erased [OF f dist]
    have ext: "extends st ?st'"
      by (simp add: extends_def push_back_def call_def)
    have vec: "vectors ?st' = (vectors st)(result := vectors st result @ [Some child])"
      by (simp add: push_back_def call_def)
    from fe(1) fresh have "child < nextObject st"
      by simp
    then have cs: "calls ?st' = calls st @ slotCalls ops st v (Some child)"
      by (simp add: push_back_def call_def slotCalls_def)
    from fe(2) have keep: "[x \<leftarrow> old'. x \<noteq> None] = [x \<leftarrow> old. x \<noteq> None \<and> x \<noteq> Some child]"
      by (simp add: conj_commute)
    from fe(2) have sub: "set old' \<subseteq> set old"
      by auto
    from fe(3) have "childID st (Some child) = Some (ident v)"
      by (auto simp: childID_def)
    with nonzero fe(1) have "slotContract ops st old [] v (Some child)"
      by (simp add: slotContract_def)
    with rec ext vec cs keep sub fe(1) show ?thesis
      by blast
  qed
qed

subsection \<open>The rebuilt vector\<close>

lemma slotCalls_later:
  assumes "extends st st'"
    and "slot = None \<or> (\<exists>c. slot = Some c \<and> (c < nextObject st \<or> nextObject st' \<le> c))"
  shows "slotCalls ops st' v slot = slotCalls ops st v slot"
  using assms by (auto simp: slotCalls_def extends_def)

lemma slotContract_later:
  assumes contract: "slotContract ops st' old' earlier v x"
    and ext: "extends st st'"
    and fresh: "\<forall>c. Some c \<in> set old \<longrightarrow> c < nextObject st"
    and keep: "[x \<leftarrow> old'. x \<noteq> None] = [x \<leftarrow> old. x \<noteq> None \<and> x \<noteq> slot]"
    and slot: "slot = None \<or> slot \<in> set old
                 \<or> slot = Some (nextObject st) \<and> nextObject st' = Suc (nextObject st)"
  shows "slotContract ops st old (slot # earlier) v x"
proof (cases "ident v = ZERO")
  case True
  with contract show ?thesis by (simp add: slotContract_def)
next
  case False
  have mem: "Some c \<in> set old' \<longleftrightarrow> Some c \<in> set old \<and> Some c \<noteq> slot" for c
  proof -
    have "Some c \<in> set old' \<longleftrightarrow> Some c \<in> set [x \<leftarrow> old'. x \<noteq> None]"
      by simp
    also have "\<dots> \<longleftrightarrow> Some c \<in> set [x \<leftarrow> old. x \<noteq> None \<and> x \<noteq> slot]"
      by (simp only: keep)
    also have "\<dots> \<longleftrightarrow> Some c \<in> set old \<and> Some c \<noteq> slot"
      by simp
    finally show ?thesis .
  qed
  have same: "childID st' y = childID st y" if "y \<in> set old" for y
    using childID_extends [OF ext, of y] fresh that by auto
  from contract False obtain c where x: "x = Some c" and new: "x \<notin> set earlier"
    and alt: "x \<in> set old' \<and> childID st' x = Some (ident v)
         \<or> nextObject st' \<le> c \<and> \<not> ownerIsMaster ops
           \<and> (\<forall>y \<in> set old'. childID st' y = Some (ident v) \<longrightarrow> y \<in> set earlier)"
    unfolding slotContract_def by (auto split: option.splits)
  from alt show ?thesis
  proof
    assume m: "x \<in> set old' \<and> childID st' x = Some (ident v)"
    with x mem [of c] have "x \<in> set old" and "x \<noteq> slot"
      by simp_all
    with m same [of x] False x new show ?thesis
      unfolding slotContract_def by auto
  next
    assume n: "nextObject st' \<le> c \<and> \<not> ownerIsMaster ops
           \<and> (\<forall>y \<in> set old'. childID st' y = Some (ident v) \<longrightarrow> y \<in> set earlier)"
    from ext n have le: "nextObject st \<le> c"
      by (simp add: extends_def)
    from slot have "x \<noteq> slot"
    proof (elim disjE conjE)
      assume "slot = None"
      with x show ?thesis by simp
    next
      assume "slot \<in> set old"
      with fresh le x show ?thesis by auto
    next
      assume "slot = Some (nextObject st)" and "nextObject st' = Suc (nextObject st)"
      with n x show ?thesis by auto
    qed
    moreover have "y \<in> set (slot # earlier)"
      if y: "y \<in> set old" and idy: "childID st y = Some (ident v)" for y
    proof (cases "y = slot")
      case True
      then show ?thesis by simp
    next
      case False
      from idy obtain d where d: "y = Some d"
        by (cases y) (simp_all add: childID_def)
      with y False mem [of d] have "y \<in> set old'" by simp
      moreover from same [OF y] idy have "childID st' y = Some (ident v)" by simp
      ultimately have "y \<in> set earlier"
        using n by blast
      then show ?thesis by simp
    qed
    ultimately show ?thesis
      using n le False x new unfolding slotContract_def by auto
  qed
qed

lemma rebuild_contract:
  assumes "rebuild ops result versions old st = Inr (old1, st1)"
    and "\<forall>c. Some c \<in> set old \<longrightarrow> c < nextObject st"
    and "distinct [x \<leftarrow> old. x \<noteq> None]"
  shows "\<exists>added. vectors st1 = (vectors st)(result := vectors st result @ added)
          \<and> length added = length versions
          \<and> extends st st1
          \<and> calls st1 = calls st @ concat (map2 (slotCalls ops st) versions added)
          \<and> [x \<leftarrow> old1. x \<noteq> None] = [x \<leftarrow> old. x \<noteq> None \<and> x \<notin> set added]
          \<and> set old1 \<subseteq> set old
          \<and> (\<forall>x \<in> set added. x = None \<or> x \<in> set old
                \<or> (\<exists>c. x = Some c \<and> nextObject st \<le> c \<and> c < nextObject st1))
          \<and> (\<forall>i < length versions.
                slotContract ops st old (take i added) (versions ! i) (added ! i))"
  using assms
proof (induction versions arbitrary: old st)
  case Nil
  then show ?case
    by (intro exI [of _ "[]"]) (simp add: extends_refl)
next
  case (Cons v versions)
  note fresh = Cons.prems(2) and dist = Cons.prems(3)
  from rebuild_round [OF Cons.prems] obtain slot old' st' where
    rec: "rebuild ops result versions old' st' = Inr (old1, st1)"
    and ext: "extends st st'"
    and vec: "vectors st' = (vectors st)(result := vectors st result @ [slot])"
    and cs: "calls st' = calls st @ slotCalls ops st v slot"
    and keep: "[x \<leftarrow> old'. x \<noteq> None] = [x \<leftarrow> old. x \<noteq> None \<and> x \<noteq> slot]"
    and sub: "set old' \<subseteq> set old"
    and slot: "slot = None \<or> slot \<in> set old
                 \<or> slot = Some (nextObject st) \<and> nextObject st' = Suc (nextObject st)"
    and first: "slotContract ops st old [] v slot"
    by blast
  have fresh': "\<forall>c. Some c \<in> set old' \<longrightarrow> c < nextObject st'"
  proof (intro allI impI)
    fix c assume "Some c \<in> set old'"
    with sub fresh have "c < nextObject st" by auto
    with ext show "c < nextObject st'" by (simp add: extends_def)
  qed
  have "[x \<leftarrow> old. x \<noteq> None \<and> x \<noteq> slot] = [x \<leftarrow> [x \<leftarrow> old. x \<noteq> None]. x \<noteq> slot]"
    by simp
  with keep dist have dist': "distinct [x \<leftarrow> old'. x \<noteq> None]"
    by (simp only: distinct_filter)
  from Cons.IH [OF rec fresh' dist'] obtain added where
    vec1: "vectors st1 = (vectors st')(result := vectors st' result @ added)"
    and len: "length added = length versions"
    and ext1: "extends st' st1"
    and cs1: "calls st1 = calls st' @ concat (map2 (slotCalls ops st') versions added)"
    and keep1: "[x \<leftarrow> old1. x \<noteq> None] = [x \<leftarrow> old'. x \<noteq> None \<and> x \<notin> set added]"
    and sub1: "set old1 \<subseteq> set old'"
    and kinds: "\<forall>x \<in> set added. x = None \<or> x \<in> set old'
                  \<or> (\<exists>c. x = Some c \<and> nextObject st' \<le> c \<and> c < nextObject st1)"
    and slots: "\<forall>i < length versions.
                  slotContract ops st' old' (take i added) (versions ! i) (added ! i)"
    by blast
  have "vectors st1 = (vectors st)(result := vectors st result @ slot # added)"
    unfolding vec1 vec by simp
  moreover have "length (slot # added) = length (v # versions)"
    using len by simp
  moreover have "extends st st1"
    using ext ext1 by (rule extends_trans)
  moreover have "calls st1 = calls st @ concat (map2 (slotCalls ops st) (v # versions) (slot # added))"
  proof -
    have "map2 (slotCalls ops st') versions added = map2 (slotCalls ops st) versions added"
    proof (rule map_cong [OF refl])
      fix p assume p: "p \<in> set (zip versions added)"
      obtain w x where wx: "p = (w, x)" by (cases p)
      with p have "x \<in> set added" by (auto dest: set_zip_rightD)
      with kinds have "x = None \<or> x \<in> set old'
          \<or> (\<exists>c. x = Some c \<and> nextObject st' \<le> c \<and> c < nextObject st1)"
        by blast
      then have "x = None \<or> (\<exists>c. x = Some c \<and> (c < nextObject st \<or> nextObject st' \<le> c))"
        using sub fresh by (cases x) auto
      from slotCalls_later [OF ext this] wx
      show "(case p of (w, x) \<Rightarrow> slotCalls ops st' w x) = (case p of (w, x) \<Rightarrow> slotCalls ops st w x)"
        by simp
    qed
    with cs cs1 show ?thesis by simp
  qed
  moreover have "[x \<leftarrow> old1. x \<noteq> None] = [x \<leftarrow> old. x \<noteq> None \<and> x \<notin> set (slot # added)]"
  proof -
    have "[x \<leftarrow> old1. x \<noteq> None] = [x \<leftarrow> [x \<leftarrow> old'. x \<noteq> None]. x \<notin> set added]"
      using keep1 by simp
    also have "\<dots> = [x \<leftarrow> [x \<leftarrow> old. x \<noteq> None \<and> x \<noteq> slot]. x \<notin> set added]"
      by (simp only: keep)
    also have "\<dots> = [x \<leftarrow> old. x \<noteq> None \<and> x \<notin> set (slot # added)]"
      by (auto intro: filter_cong)
    finally show ?thesis .
  qed
  moreover have "set old1 \<subseteq> set old"
    using sub sub1 by blast
  moreover have "\<forall>x \<in> set (slot # added). x = None \<or> x \<in> set old
                \<or> (\<exists>c. x = Some c \<and> nextObject st \<le> c \<and> c < nextObject st1)"
  proof
    fix x assume "x \<in> set (slot # added)"
    then consider "x = slot" | "x \<in> set added" by auto
    then show "x = None \<or> x \<in> set old
                \<or> (\<exists>c. x = Some c \<and> nextObject st \<le> c \<and> c < nextObject st1)"
    proof cases
      case 1
      with slot ext1 show ?thesis
        by (auto simp: extends_def)
    next
      case 2
      with kinds sub ext show ?thesis
        by (fastforce simp: extends_def)
    qed
  qed
  moreover have "\<forall>i < length (v # versions).
       slotContract ops st old (take i (slot # added)) ((v # versions) ! i) ((slot # added) ! i)"
  proof (intro allI impI)
    fix i assume i: "i < length (v # versions)"
    show "slotContract ops st old (take i (slot # added)) ((v # versions) ! i) ((slot # added) ! i)"
    proof (cases i)
      case 0
      with first show ?thesis by simp
    next
      case (Suc j)
      with i have "j < length versions" by simp
      with slots have "slotContract ops st' old' (take j added) (versions ! j) (added ! j)"
        by blast
      from slotContract_later [OF this ext fresh keep slot] Suc
      show ?thesis by simp
    qed
  qed
  ultimately show ?case by blast
qed

subsection \<open>The removed children\<close>

lemma removedCalls_same:
  "(\<forall>c. x = Some c \<longrightarrow> objects st' c = objects st c) \<Longrightarrow> removedCalls st' x = removedCalls st x"
  by (cases x) (simp_all add: removedCalls_def)

lemma releaseRemoved_calls:
  assumes "releaseRemoved xs st = Inr st1"
    and "distinct [x \<leftarrow> xs. x \<noteq> None]"
  shows "vectors st1 = vectors st
       \<and> calls st1 = calls st @ concat (map (removedCalls st) xs)"
  using assms
proof (induction xs arbitrary: st)
  case Nil
  then show ?case by simp
next
  case (Cons child rest)
  show ?case
  proof (cases child)
    case None
    with Cons.prems have "releaseRemoved rest st = Inr st1" and "distinct [x \<leftarrow> rest. x \<noteq> None]"
      by simp_all
    from Cons.IH [OF this] None show ?thesis
      by (simp add: removedCalls_def)
  next
    case (Some d)
    with Cons.prems(1) obtain objd where objd: "objects st d = Some objd"
      by (auto split: option.splits)
    let ?st' = "call (Release d) (if isAttached objd \<and> \<not> isMaster objd then unmapObject d st else st)"
    from Cons.prems(1) Some objd have rec: "releaseRemoved rest ?st' = Inr st1"
      by simp
    from Cons.prems(2) Some have dist: "distinct [x \<leftarrow> rest. x \<noteq> None]"
      and notin: "Some d \<notin> set rest"
      by simp_all
    note ih = Cons.IH [OF rec dist]
    have vec: "vectors ?st' = vectors st"
      by (simp add: call_def unmapObject_def)
    have cs: "calls ?st' = calls st @ removedCalls st (Some d)"
      using objd by (simp add: call_def unmapObject_def removedCalls_def)
    have other: "objects ?st' c = objects st c" if "c \<noteq> d" for c
      using that by (simp add: call_def unmapObject_def)
    have "map (removedCalls ?st') rest = map (removedCalls st) rest"
    proof (rule map_cong [OF refl])
      fix x assume "x \<in> set rest"
      with notin have "\<forall>c. x = Some c \<longrightarrow> c \<noteq> d" by auto
      with other have "\<forall>c. x = Some c \<longrightarrow> objects ?st' c = objects st c" by blast
      then show "removedCalls ?st' x = removedCalls st x"
        by (rule removedCalls_same)
    qed
    with ih vec cs Some show ?thesis
      by simp
  qed
qed

lemma removedCalls_nonnull:
  "concat (map (removedCalls st) xs) = concat (map (removedCalls st) [x \<leftarrow> xs. x \<noteq> None])"
  by (induction xs) (simp_all add: removedCalls_def)

lemma releaseRemoved_succeeds:
  "\<forall>c. Some c \<in> set xs \<longrightarrow> objects st c \<noteq> None \<Longrightarrow> \<exists>st1. releaseRemoved xs st = Inr st1"
proof (induction xs arbitrary: st)
  case Nil
  then show ?case by simp
next
  case (Cons child rest)
  show ?case
  proof (cases child)
    case None
    with Cons show ?thesis by simp
  next
    case (Some d)
    with Cons.prems obtain objd where objd: "objects st d = Some objd"
      by auto
    let ?st' = "call (Release d) (if isAttached objd \<and> \<not> isMaster objd then unmapObject d st else st)"
    have "\<forall>c. Some c \<in> set rest \<longrightarrow> objects ?st' c \<noteq> None"
      using Cons.prems by (auto simp: call_def unmapObject_def)
    from Cons.IH [OF this] Some objd show ?thesis by simp
  qed
qed


lemma releaseRemoved_vectors:
  "releaseRemoved xs st = Inr st1 \<Longrightarrow> vectors st1 = vectors st"
proof (induction xs arbitrary: st)
  case Nil
  then show ?case by simp
next
  case (Cons child rest)
  show ?case
  proof (cases child)
    case None
    with Cons show ?thesis by simp
  next
    case (Some d)
    with Cons.prems obtain objd where objd: "objects st d = Some objd"
      by (auto split: option.splits)
    let ?st' = "call (Release d) (if isAttached objd \<and> \<not> isMaster objd then unmapObject d st else st)"
    from Cons.prems Some objd have "releaseRemoved rest ?st' = Inr st1"
      by simp
    from Cons.IH [OF this] show ?thesis
      by (simp add: call_def unmapObject_def)
  qed
qed

subsection \<open>The shape of the rebuilt vector\<close>

lemma rebuild_shape:
  "rebuild ops result versions old st = Inr (old1, st1) \<Longrightarrow>
     \<exists>added. vectors st1 = (vectors st)(result := vectors st result @ added)
        \<and> length added = length versions \<and> extends st st1 \<and> set old1 \<subseteq> set old"
proof (induction versions arbitrary: old st)
  case Nil
  then show ?case
    by (intro exI [of _ "[]"]) (simp add: extends_refl)
next
  case (Cons v versions)
  have step: "\<exists>slot old' st'. rebuild ops result versions old' st' = Inr (old1, st1)
         \<and> extends st st'
         \<and> vectors st' = (vectors st)(result := vectors st result @ [slot])
         \<and> set old' \<subseteq> set old"
  proof (cases "ident v = ZERO")
    case True
    let ?st' = "push_back result None st"
    from Cons.prems True have "rebuild ops result versions old ?st' = Inr (old1, st1)"
      by simp
    moreover have "extends st ?st'"
      by (simp add: extends_def push_back_def)
    moreover have "vectors ?st' = (vectors st)(result := vectors st result @ [None])"
      by (simp add: push_back_def)
    ultimately show ?thesis by blast
  next
    case False
    from Cons.prems False obtain found where
      found: "find_if (objects st) (ident v) [] old = Inr found"
      by (cases "find_if (objects st) (ident v) [] old") auto
    show ?thesis
    proof (cases found)
      case None
      let ?c = "nextObject st"
      let ?st' = "push_back result (Some ?c) (mapObject ?c v (snd (create st)))"
      from Cons.prems False found None
      have "rebuild ops result versions old ?st' = Inr (old1, st1)"
        by (auto simp: create_def split: if_splits)
      moreover have "extends st ?st'"
        by (simp add: extends_def push_back_def mapObject_def create_def call_def)
      moreover have "vectors ?st' = (vectors st)(result := vectors st result @ [Some ?c])"
        by (simp add: push_back_def mapObject_def create_def call_def)
      ultimately show ?thesis by blast
    next
      case (Some pair)
      obtain child old' where pair: "pair = (child, old')"
        by (cases pair)
      let ?version = "if ownerIsMaster ops then VERSION_HEAD ops else objectVersion v"
      let ?st' = "push_back result (Some child) (call (Sync child ?version) st)"
      from Cons.prems False found Some pair
      have "rebuild ops result versions old' ?st' = Inr (old1, st1)"
        by simp
      moreover have "extends st ?st'"
        by (simp add: extends_def push_back_def call_def)
      moreover have "vectors ?st' = (vectors st)(result := vectors st result @ [Some child])"
        by (simp add: push_back_def call_def)
      moreover from found Some pair find_if_split [of "objects st" "ident v" "[]" old child old']
      have "set old' \<subseteq> set old"
        by auto
      ultimately show ?thesis by blast
    qed
  qed
  then obtain slot old' st' where
    rec: "rebuild ops result versions old' st' = Inr (old1, st1)"
    and ext: "extends st st'"
    and vec: "vectors st' = (vectors st)(result := vectors st result @ [slot])"
    and sub: "set old' \<subseteq> set old"
    by blast
  from Cons.IH [OF rec] obtain added where
    vec1: "vectors st1 = (vectors st')(result := vectors st' result @ added)"
    and len: "length added = length versions"
    and ext1: "extends st' st1" and sub1: "set old1 \<subseteq> set old'"
    by blast
  have "vectors st1 = (vectors st)(result := vectors st result @ slot # added)"
    unfolding vec1 vec by simp
  moreover have "length (slot # added) = length (v # versions)"
    using len by simp
  moreover have "extends st st1"
    using ext ext1 by (rule extends_trans)
  moreover have "set old1 \<subseteq> set old"
    using sub sub1 by blast
  ultimately show ?case by blast
qed

subsection \<open>Completion\<close>

lemma childIDs_Cons:
  "childIDs st (x # xs) =
     (case childID st x of None \<Rightarrow> childIDs st xs | Some u \<Rightarrow> u # childIDs st xs)"
  by (simp add: childIDs_def map_filter_simps split: option.splits)

lemma childIDs_same:
  "\<forall>c. Some c \<in> set old \<longrightarrow> objects st' c = objects st c \<Longrightarrow> childIDs st' old = childIDs st old"
proof (induction old)
  case Nil
  then show ?case by (simp add: childIDs_def map_filter_simps)
next
  case (Cons x xs)
  then have "childIDs st' xs = childIDs st xs" by simp
  moreover from Cons.prems have "childID st' x = childID st x"
    by (cases x) (simp_all add: childID_def)
  ultimately show ?case by (simp add: childIDs_Cons split: option.splits)
qed

lemma find_if_valid:
  assumes "\<forall>x \<in> set old. \<exists>c. x = Some c \<and> objects st c \<noteq> None"
  shows "(uuid \<notin> set (childIDs st old) \<longrightarrow> find_if (objects st) uuid before old = Inr None)
       \<and> (uuid \<in> set (childIDs st old) \<longrightarrow>
            (\<exists>c old'. find_if (objects st) uuid before old = Inr (Some (c, before @ old'))
               \<and> childIDs st old' = remove1 uuid (childIDs st old) \<and> set old' \<subseteq> set old))"
  using assms
proof (induction old arbitrary: before)
  case Nil
  then show ?case by (simp add: childIDs_def map_filter_simps)
next
  case (Cons candidate rest)
  from Cons.prems obtain d obj where cand: "candidate = Some d" and obj: "objects st d = Some obj"
    by auto
  from Cons.prems have valid: "\<forall>x \<in> set rest. \<exists>c. x = Some c \<and> objects st c \<noteq> None"
    by simp
  from cand obj have ids: "childIDs st (candidate # rest) = getID obj # childIDs st rest"
    by (simp add: childIDs_Cons childID_def)
  show ?case
  proof (cases "getID obj = uuid")
    case True
    with cand obj have "find_if (objects st) uuid before (candidate # rest)
                         = Inr (Some (d, before @ rest))"
      by simp
    moreover from True ids have "childIDs st rest = remove1 uuid (childIDs st (candidate # rest))"
      by simp
    moreover from True ids have "uuid \<in> set (childIDs st (candidate # rest))"
      by simp
    ultimately show ?thesis
      by (intro conjI impI exI [of _ d] exI [of _ rest]) auto
  next
    case False
    with cand obj have step: "find_if (objects st) uuid before (candidate # rest)
                         = find_if (objects st) uuid (before @ [candidate]) rest"
      by simp
    note ih = Cons.IH [OF valid, of "before @ [candidate]"]
    show ?thesis
    proof (intro conjI impI)
      assume "uuid \<notin> set (childIDs st (candidate # rest))"
      with ids have "uuid \<notin> set (childIDs st rest)" by simp
      with ih step show "find_if (objects st) uuid before (candidate # rest) = Inr None"
        by simp
    next
      assume "uuid \<in> set (childIDs st (candidate # rest))"
      with ids False have "uuid \<in> set (childIDs st rest)" by auto
      with ih obtain c old' where
        f: "find_if (objects st) uuid (before @ [candidate]) rest
              = Inr (Some (c, (before @ [candidate]) @ old'))"
        and r: "childIDs st old' = remove1 uuid (childIDs st rest)"
        and s: "set old' \<subseteq> set rest"
        by blast
      from cand obj r False ids
      have "childIDs st (candidate # old') = remove1 uuid (childIDs st (candidate # rest))"
        by (simp add: childIDs_Cons childID_def)
      with f s step
      show "\<exists>c old'. find_if (objects st) uuid before (candidate # rest)
                        = Inr (Some (c, before @ old'))
               \<and> childIDs st old' = remove1 uuid (childIDs st (candidate # rest))
               \<and> set old' \<subseteq> set (candidate # rest)"
        by (intro exI [of _ c] exI [of _ "candidate # old'"]) auto
    qed
  qed
qed

lemma rebuild_outcome:
  assumes "\<forall>x \<in> set old. \<exists>c. x = Some c \<and> objects st c \<noteq> None"
    and "\<forall>c. Some c \<in> set old \<longrightarrow> c < nextObject st"
  shows "if \<forall>v \<in> set (unmatchedVersions (childIDs st old) versions).
              \<not> ownerIsMaster ops \<and> mapObjectOK ops v
         then \<exists>old1 st1. rebuild ops result versions old st = Inr (old1, st1)
         else rebuild ops result versions old st = Inl AssertFailed"
  using assms
proof (induction versions arbitrary: old st)
  case Nil
  then show ?case by simp
next
  case (Cons v versions)
  note valid = Cons.prems(1) and fresh = Cons.prems(2)
  show ?case
  proof (cases "ident v = ZERO")
    case True
    let ?st' = "push_back result None st"
    have "\<forall>x \<in> set old. \<exists>c. x = Some c \<and> objects ?st' c \<noteq> None"
      and "\<forall>c. Some c \<in> set old \<longrightarrow> c < nextObject ?st'"
      using valid fresh by (simp_all add: push_back_def)
    note ih = Cons.IH [OF this]
    have "childIDs ?st' old = childIDs st old"
      by (rule childIDs_same) (simp add: push_back_def)
    with ih True show ?thesis by simp
  next
    case False
    note fv = find_if_valid [OF valid, of "ident v" "[]"]
    show ?thesis
    proof (cases "ident v \<in> set (childIDs st old)")
      case True
      with fv obtain child old' where
        f: "find_if (objects st) (ident v) [] old = Inr (Some (child, old'))"
        and r: "childIDs st old' = remove1 (ident v) (childIDs st old)"
        and s: "set old' \<subseteq> set old"
        by auto
      let ?version = "if ownerIsMaster ops then VERSION_HEAD ops else objectVersion v"
      let ?st' = "push_back result (Some child) (call (Sync child ?version) st)"
      have "\<forall>x \<in> set old'. \<exists>c. x = Some c \<and> objects ?st' c \<noteq> None"
        and "\<forall>c. Some c \<in> set old' \<longrightarrow> c < nextObject ?st'"
        using valid fresh s by (auto simp: push_back_def call_def)
      note ih = Cons.IH [OF this]
      have "childIDs ?st' old' = childIDs st old'"
        by (rule childIDs_same) (simp add: push_back_def call_def)
      with ih r False True f show ?thesis by simp
    next
      case unmatched: False
      with fv have f: "find_if (objects st) (ident v) [] old = Inr None"
        by simp
      show ?thesis
      proof (cases "\<not> ownerIsMaster ops \<and> mapObjectOK ops v")
        case ok: True
        let ?c = "nextObject st"
        let ?st' = "push_back result (Some ?c) (mapObject ?c v (snd (create st)))"
        have keep: "objects ?st' c = objects st c" if "c < nextObject st" for c
          using that by (simp add: push_back_def mapObject_def create_def call_def)
        have nxt: "nextObject ?st' = Suc ?c"
          by (simp add: push_back_def mapObject_def create_def call_def)
        have "\<forall>x \<in> set old. \<exists>c. x = Some c \<and> objects ?st' c \<noteq> None"
        proof
          fix x assume x: "x \<in> set old"
          with valid obtain c where c: "x = Some c" and "objects st c \<noteq> None"
            by blast
          moreover from x c fresh have "c < nextObject st" by simp
          ultimately show "\<exists>c. x = Some c \<and> objects ?st' c \<noteq> None"
            using keep [of c] by simp
        qed
        moreover have "\<forall>c. Some c \<in> set old \<longrightarrow> c < nextObject ?st'"
          using fresh nxt by (simp add: less_Suc_eq)
        ultimately have ih:
          "if \<forall>v \<in> set (unmatchedVersions (childIDs ?st' old) versions).
                \<not> ownerIsMaster ops \<and> mapObjectOK ops v
           then \<exists>old1 st1. rebuild ops result versions old ?st' = Inr (old1, st1)
           else rebuild ops result versions old ?st' = Inl AssertFailed"
          by (rule Cons.IH)
        have "childIDs ?st' old = childIDs st old"
          using fresh keep by (intro childIDs_same) blast
        with ih False unmatched f ok show ?thesis
          by (auto simp: create_def split: if_splits)
      next
        case False
        with \<open>ident v \<noteq> ZERO\<close> unmatched f show ?thesis
          by (auto simp: create_def)
      qed
    qed
  qed
qed

subsection \<open>Independence of the address of the result\<close>

lemma releaseRemoved_alias:
  assumes "objects st = objects st'" and "nextObject st = nextObject st'"
    and "calls st = calls st'" and "vectors st r = vectors st' r'"
  shows "(\<exists>e. releaseRemoved xs st = Inl e \<and> releaseRemoved xs st' = Inl e)
       \<or> (\<exists>s s'. releaseRemoved xs st = Inr s \<and> releaseRemoved xs st' = Inr s'
            \<and> objects s = objects s' \<and> nextObject s = nextObject s'
            \<and> calls s = calls s' \<and> vectors s r = vectors s' r')"
  using assms
proof (induction xs arbitrary: st st')
  case Nil
  then show ?case by simp
next
  case (Cons child rest)
  show ?case
  proof (cases child)
    case None
    with Cons.IH [OF Cons.prems] show ?thesis by simp
  next
    case (Some d)
    show ?thesis
    proof (cases "objects st d")
      case None
      with Some Cons.prems(1) show ?thesis by simp
    next
      case (Some objd)
      let ?next = "\<lambda>st. call (Release d)
                     (if isAttached objd \<and> \<not> isMaster objd then unmapObject d st else st)"
      have "objects (?next st) = objects (?next st')"
        and "nextObject (?next st) = nextObject (?next st')"
        and "calls (?next st) = calls (?next st')"
        and "vectors (?next st) r = vectors (?next st') r'"
        using Cons.prems by (simp_all add: call_def unmapObject_def)
      from Cons.IH [OF this] \<open>child = Some d\<close> Some Cons.prems(1) show ?thesis
        by simp
    qed
  qed
qed

lemma rebuild_alias:
  assumes "objects st = objects st'" and "nextObject st = nextObject st'"
    and "calls st = calls st'" and "vectors st r = vectors st' r'"
  shows "(\<exists>e. rebuild ops r versions old st = Inl e \<and> rebuild ops r' versions old st' = Inl e)
       \<or> (\<exists>old1 s s'. rebuild ops r versions old st = Inr (old1, s)
            \<and> rebuild ops r' versions old st' = Inr (old1, s')
            \<and> objects s = objects s' \<and> nextObject s = nextObject s'
            \<and> calls s = calls s' \<and> vectors s r = vectors s' r')"
  using assms
proof (induction versions arbitrary: old st st')
  case Nil
  then show ?case by simp
next
  case (Cons v versions)
  show ?case
  proof (cases "ident v = ZERO")
    case True
    have "objects (push_back r None st) = objects (push_back r' None st')"
      and "nextObject (push_back r None st) = nextObject (push_back r' None st')"
      and "calls (push_back r None st) = calls (push_back r' None st')"
      and "vectors (push_back r None st) r = vectors (push_back r' None st') r'"
      using Cons.prems by (simp_all add: push_back_def)
    from Cons.IH [OF this] True show ?thesis by simp
  next
    case False
    show ?thesis
    proof (cases "find_if (objects st) (ident v) [] old")
      case (Inl e)
      with False Cons.prems(1) show ?thesis by simp
    next
      case (Inr found)
      show ?thesis
      proof (cases found)
        case None
        let ?c = "nextObject st"
        let ?next = "\<lambda>r st. push_back r (Some ?c) (mapObject ?c v (snd (create st)))"
        have "objects (?next r st) = objects (?next r' st')"
          and "nextObject (?next r st) = nextObject (?next r' st')"
          and "calls (?next r st) = calls (?next r' st')"
          and "vectors (?next r st) r = vectors (?next r' st') r'"
          using Cons.prems by (simp_all add: push_back_def mapObject_def create_def call_def)
        from Cons.IH [OF this, of old] False Inr None Cons.prems(1,2) show ?thesis
          by (simp add: create_def)
      next
        case (Some pair)
        obtain child old' where pair: "pair = (child, old')"
          by (cases pair)
        let ?version = "if ownerIsMaster ops then VERSION_HEAD ops else objectVersion v"
        let ?next = "\<lambda>r st. push_back r (Some child) (call (Sync child ?version) st)"
        have "objects (?next r st) = objects (?next r' st')"
          and "nextObject (?next r st) = nextObject (?next r' st')"
          and "calls (?next r st) = calls (?next r' st')"
          and "vectors (?next r st) r = vectors (?next r' st') r'"
          using Cons.prems by (simp_all add: push_back_def call_def)
        from Cons.IH [OF this, of old'] False Inr Some pair Cons.prems(1) show ?thesis
          by simp
      qed
    qed
  qed
qed



subsection \<open>The whole reconciliation\<close>

lemma slotContract_vectors:
  "slotContract ops (st\<lparr>vectors := vs\<rparr>) old earlier v slot =
   slotContract ops st old earlier v slot"
proof -
  have "childID (st\<lparr>vectors := vs\<rparr>) = childID st"
    by (intro HOL.ext) (simp add: childID_def split: option.splits)
  then show ?thesis
    by (simp add: slotContract_def split: option.splits)
qed

lemma deserializeChildren_shape:
  assumes run: "deserializeChildren ops versions oldAddr result st = Inr st'"
  shows "length (vectors st' result) = length versions"
    and "\<forall>a. a \<noteq> result \<longrightarrow> vectors st' a = vectors st a"
proof -
  let ?old = "vectors st oldAddr"
  let ?st1 = "st\<lparr>vectors := (vectors st)(result := [])\<rparr>"
  from run obtain old1 st2 where
    reb: "rebuild ops result versions ?old ?st1 = Inr (old1, st2)"
    and rel: "releaseRemoved (rev old1) st2 = Inr st'"
    by (auto simp: deserializeChildren_def Let_def split: sum.splits)
  from rebuild_shape [OF reb] obtain added where
    vec: "vectors st2 = (vectors ?st1)(result := vectors ?st1 result @ added)"
    and len: "length added = length versions"
    by blast
  from releaseRemoved_vectors [OF rel] vec len
  show "length (vectors st' result) = length versions"
    and "\<forall>a. a \<noteq> result \<longrightarrow> vectors st' a = vectors st a"
    by simp_all
qed

lemma deserializeChildren_run:
  assumes run: "deserializeChildren ops versions oldAddr result st = Inr st'"
    and fresh: "\<forall>c. Some c \<in> set (vectors st oldAddr) \<longrightarrow> c < nextObject st"
    and dist: "distinct [x \<leftarrow> vectors st oldAddr. x \<noteq> None]"
  shows "\<forall>i < length versions.
           slotContract ops st (vectors st oldAddr) (take i (vectors st' result))
             (versions ! i) (vectors st' result ! i)"
    and "calls st' = calls st
           @ concat (map2 (slotCalls ops st) versions (vectors st' result))
           @ concat (map (removedCalls st)
                       (rev [x \<leftarrow> vectors st oldAddr. x \<notin> set (vectors st' result)]))"
proof -
  let ?old = "vectors st oldAddr"
  let ?st1 = "st\<lparr>vectors := (vectors st)(result := [])\<rparr>"
  from run obtain old1 st2 where
    reb: "rebuild ops result versions ?old ?st1 = Inr (old1, st2)"
    and rel: "releaseRemoved (rev old1) st2 = Inr st'"
    by (auto simp: deserializeChildren_def Let_def split: sum.splits)
  from fresh have fresh1: "\<forall>c. Some c \<in> set ?old \<longrightarrow> c < nextObject ?st1"
    by simp
  from rebuild_contract [OF reb fresh1 dist] obtain added where
    vec: "vectors st2 = (vectors ?st1)(result := vectors ?st1 result @ added)"
    and ext: "extends ?st1 st2"
    and cs: "calls st2 = calls ?st1 @ concat (map2 (slotCalls ops ?st1) versions added)"
    and keep: "[x \<leftarrow> old1. x \<noteq> None] = [x \<leftarrow> ?old. x \<noteq> None \<and> x \<notin> set added]"
    and sub: "set old1 \<subseteq> set ?old"
    and slots: "\<forall>i < length versions.
       slotContract ops ?st1 ?old (take i added) (versions ! i) (added ! i)"
    by blast
  have "[x \<leftarrow> ?old. x \<noteq> None \<and> x \<notin> set added] = [x \<leftarrow> [x \<leftarrow> ?old. x \<noteq> None]. x \<notin> set added]"
    by simp
  with keep dist have "distinct [x \<leftarrow> old1. x \<noteq> None]"
    by (simp only: distinct_filter)
  then have dist1: "distinct [x \<leftarrow> rev old1. x \<noteq> None]"
    by (simp add: rev_filter [symmetric])
  note rc = releaseRemoved_calls [OF rel dist1]
  from rc vec have res: "vectors st' result = added"
    by simp
  show "\<forall>i < length versions.
           slotContract ops st ?old (take i (vectors st' result))
             (versions ! i) (vectors st' result ! i)"
    using slots unfolding res by (simp only: slotContract_vectors)
  have same: "removedCalls st2 x = removedCalls st x" if "x \<in> set old1" for x
  proof (rule removedCalls_same, intro allI impI)
    fix c assume "x = Some c"
    with that sub fresh have "c < nextObject ?st1" by auto
    with ext show "objects st2 c = objects st c"
      by (simp add: extends_def)
  qed
  have "concat (map (removedCalls st2) (rev old1)) = concat (map (removedCalls st) (rev old1))"
    using same by (intro arg_cong [where f = concat] map_cong) simp_all
  also have "\<dots> = concat (map (removedCalls st) [x \<leftarrow> rev old1. x \<noteq> None])"
    by (rule removedCalls_nonnull)
  also have "[x \<leftarrow> rev old1. x \<noteq> None] = [x \<leftarrow> rev [x \<leftarrow> ?old. x \<notin> set added]. x \<noteq> None]"
    using keep by (simp add: rev_filter [symmetric] conj_commute)
  also have "concat (map (removedCalls st) \<dots>)
               = concat (map (removedCalls st) (rev [x \<leftarrow> ?old. x \<notin> set added]))"
    by (rule removedCalls_nonnull [symmetric])
  finally have removed: "concat (map (removedCalls st2) (rev old1))
     = concat (map (removedCalls st) (rev [x \<leftarrow> ?old. x \<notin> set added]))" .
  have "slotCalls ops ?st1 = slotCalls ops st"
    by (intro HOL.ext) (simp add: slotCalls_def split: option.splits)
  with rc cs removed res
  show "calls st' = calls st
           @ concat (map2 (slotCalls ops st) versions (vectors st' result))
           @ concat (map (removedCalls st)
                       (rev [x \<leftarrow> ?old. x \<notin> set (vectors st' result)]))"
    by simp
qed

lemma deserializeChildren_outcome:
  assumes fresh: "\<forall>c. Some c \<in> set (vectors st oldAddr) \<longrightarrow> c < nextObject st"
    and valid: "\<forall>x \<in> set (vectors st oldAddr). \<exists>c. x = Some c \<and> objects st c \<noteq> None"
  shows "if \<forall>v \<in> set (unmatchedVersions (childIDs st (vectors st oldAddr)) versions).
              \<not> ownerIsMaster ops \<and> mapObjectOK ops v
         then \<exists>st'. deserializeChildren ops versions oldAddr result st = Inr st'
         else deserializeChildren ops versions oldAddr result st = Inl AssertFailed"
proof -
  let ?old = "vectors st oldAddr"
  let ?st1 = "st\<lparr>vectors := (vectors st)(result := [])\<rparr>"
  from valid have valid1: "\<forall>x \<in> set ?old. \<exists>c. x = Some c \<and> objects ?st1 c \<noteq> None"
    by simp
  from fresh have fresh1: "\<forall>c. Some c \<in> set ?old \<longrightarrow> c < nextObject ?st1"
    by simp
  have ids: "childIDs ?st1 ?old = childIDs st ?old"
    by (rule childIDs_same) simp
  note out = rebuild_outcome [OF valid1 fresh1, of versions ops result, unfolded ids]
  show ?thesis
  proof (cases "\<forall>v \<in> set (unmatchedVersions (childIDs st ?old) versions).
              \<not> ownerIsMaster ops \<and> mapObjectOK ops v")
    case True
    with out obtain old1 st2 where
      reb: "rebuild ops result versions ?old ?st1 = Inr (old1, st2)"
      by auto
    from rebuild_shape [OF reb] have ext: "extends ?st1 st2"
      and sub: "set old1 \<subseteq> set ?old"
      by blast+
    have "\<forall>c. Some c \<in> set (rev old1) \<longrightarrow> objects st2 c \<noteq> None"
    proof (intro allI impI)
      fix c assume "Some c \<in> set (rev old1)"
      with sub have c: "Some c \<in> set ?old" by auto
      with valid have "objects st c \<noteq> None" by auto
      moreover from c fresh ext have "objects st2 c = objects st c"
        by (simp add: extends_def)
      ultimately show "objects st2 c \<noteq> None" by simp
    qed
    from releaseRemoved_succeeds [OF this] reb True show ?thesis
      by (simp add: deserializeChildren_def Let_def)
  next
    case False
    with out have "rebuild ops result versions ?old ?st1 = Inl AssertFailed"
      by auto
    with False show ?thesis
      by (simp add: deserializeChildren_def Let_def)
  qed
qed

lemma deserializeChildren_alias:
  "(\<exists>e. deserializeChildren ops versions oldAddr oldAddr st = Inl e
        \<and> deserializeChildren ops versions oldAddr result st = Inl e)
   \<or> (\<exists>s s'. deserializeChildren ops versions oldAddr oldAddr st = Inr s
        \<and> deserializeChildren ops versions oldAddr result st = Inr s'
        \<and> vectors s oldAddr = vectors s' result
        \<and> calls s = calls s' \<and> objects s = objects s')"
proof -
  let ?old = "vectors st oldAddr"
  let ?a = "st\<lparr>vectors := (vectors st)(oldAddr := [])\<rparr>"
  let ?b = "st\<lparr>vectors := (vectors st)(result := [])\<rparr>"
  have "objects ?a = objects ?b" and "nextObject ?a = nextObject ?b"
    and "calls ?a = calls ?b" and "vectors ?a oldAddr = vectors ?b result"
    by simp_all
  from rebuild_alias [OF this, of ops versions ?old]
  show ?thesis
  proof
    assume "\<exists>e. rebuild ops oldAddr versions ?old ?a = Inl e
              \<and> rebuild ops result versions ?old ?b = Inl e"
    then show ?thesis
      by (auto simp: deserializeChildren_def Let_def)
  next
    assume "\<exists>old1 s s'. rebuild ops oldAddr versions ?old ?a = Inr (old1, s)
            \<and> rebuild ops result versions ?old ?b = Inr (old1, s')
            \<and> objects s = objects s' \<and> nextObject s = nextObject s'
            \<and> calls s = calls s' \<and> vectors s oldAddr = vectors s' result"
    then obtain old1 s s' where
      ra: "rebuild ops oldAddr versions ?old ?a = Inr (old1, s)"
      and rb: "rebuild ops result versions ?old ?b = Inr (old1, s')"
      and eq: "objects s = objects s'" "nextObject s = nextObject s'"
        "calls s = calls s'" "vectors s oldAddr = vectors s' result"
      by blast
    from releaseRemoved_alias [OF eq, of "rev old1"] ra rb show ?thesis
      by (auto simp: deserializeChildren_def Let_def)
  qed
qed


text \<open>
  C2, as amended. For every store in which the old children lie below the next free
  object address, and for every list of versions:
  when the old vector holds neither a null nor a dangling pointer, \<open>deserializeChildren\<close>
  completes if every entry with an unmatched identifier comes on an owner that is not
  master and is mapped successfully, and fails an assertion otherwise (so on a master
  it completes exactly when every identifier is ZERO or matched);
  whenever it completes (on a master or not), the result vector has one slot per
  serialized version and no other vector changes;
  whenever it completes and no child stands twice in the old vector, the slots follow
  the serialized order and every slot meets \<open>slotContract\<close> (null for ZERO; else a
  child in no earlier slot, which is an old child with the identifier or, on an owner
  that is not master and when no old child with the identifier is left, a newly
  allocated child), and the calls made are exactly, slot by slot, the sync of an old
  child (to HEAD on a master, to the serialized version otherwise) or the creation and
  mapping of a new child, and then, for the old children that are not in the result
  and for no other, from the back of the old vector, the unmap (when attached and not
  a master) and the release;
  and the outcome (the error, or the result vector, the calls and the objects) is the
  same whether or not the result vector is the old vector.
\<close>

theorem deserializeChildren_contract:
  assumes "\<forall>c. Some c \<in> set (vectors st oldAddr) \<longrightarrow> c < nextObject st"
  shows "((\<forall>x \<in> set (vectors st oldAddr). \<exists>c. x = Some c \<and> objects st c \<noteq> None) \<longrightarrow>
          (if \<forall>v \<in> set (unmatchedVersions (childIDs st (vectors st oldAddr)) versions).
                 \<not> ownerIsMaster ops \<and> mapObjectOK ops v
           then \<exists>st'. deserializeChildren ops versions oldAddr result st = Inr st'
           else deserializeChildren ops versions oldAddr result st = Inl AssertFailed))
     \<and> (\<forall>st'. deserializeChildren ops versions oldAddr result st = Inr st' \<longrightarrow>
          length (vectors st' result) = length versions
        \<and> (\<forall>a. a \<noteq> result \<longrightarrow> vectors st' a = vectors st a)
        \<and> (distinct [x \<leftarrow> vectors st oldAddr. x \<noteq> None] \<longrightarrow>
             (\<forall>i < length versions.
                slotContract ops st (vectors st oldAddr) (take i (vectors st' result))
                  (versions ! i) (vectors st' result ! i))
           \<and> calls st' = calls st
               @ concat (map2 (slotCalls ops st) versions (vectors st' result))
               @ concat (map (removedCalls st)
                           (rev [x \<leftarrow> vectors st oldAddr. x \<notin> set (vectors st' result)]))))
     \<and> ((\<exists>e. deserializeChildren ops versions oldAddr oldAddr st = Inl e
            \<and> deserializeChildren ops versions oldAddr result st = Inl e)
        \<or> (\<exists>s s'. deserializeChildren ops versions oldAddr oldAddr st = Inr s
            \<and> deserializeChildren ops versions oldAddr result st = Inr s'
            \<and> vectors s oldAddr = vectors s' result
            \<and> calls s = calls s' \<and> objects s = objects s'))"
proof (intro conjI impI allI)
  assume "\<forall>x \<in> set (vectors st oldAddr). \<exists>c. x = Some c \<and> objects st c \<noteq> None"
  from deserializeChildren_outcome [OF assms this]
  show "if \<forall>v \<in> set (unmatchedVersions (childIDs st (vectors st oldAddr)) versions).
                 \<not> ownerIsMaster ops \<and> mapObjectOK ops v
           then \<exists>st'. deserializeChildren ops versions oldAddr result st = Inr st'
           else deserializeChildren ops versions oldAddr result st = Inl AssertFailed" .
next
  fix st' assume run: "deserializeChildren ops versions oldAddr result st = Inr st'"
  from deserializeChildren_shape(1) [OF run]
  show "length (vectors st' result) = length versions" .
next
  fix st' a assume run: "deserializeChildren ops versions oldAddr result st = Inr st'"
    and "a \<noteq> result"
  with deserializeChildren_shape(2) [OF run] show "vectors st' a = vectors st a"
    by blast
next
  fix st' i assume run: "deserializeChildren ops versions oldAddr result st = Inr st'"
    and dist: "distinct [x \<leftarrow> vectors st oldAddr. x \<noteq> None]"
    and "i < length versions"
  with deserializeChildren_run(1) [OF run assms dist]
  show "slotContract ops st (vectors st oldAddr) (take i (vectors st' result))
               (versions ! i) (vectors st' result ! i)"
    by blast
next
  fix st' assume run: "deserializeChildren ops versions oldAddr result st = Inr st'"
    and dist: "distinct [x \<leftarrow> vectors st oldAddr. x \<noteq> None]"
  from deserializeChildren_run(2) [OF run assms dist]
  show "calls st' = calls st
            @ concat (map2 (slotCalls ops st) versions (vectors st' result))
            @ concat (map (removedCalls st)
                        (rev [x \<leftarrow> vectors st oldAddr. x \<notin> set (vectors st' result)]))" .
next
  from deserializeChildren_alias [of ops versions oldAddr st result]
  show "(\<exists>e. deserializeChildren ops versions oldAddr oldAddr st = Inl e
            \<and> deserializeChildren ops versions oldAddr result st = Inl e)
        \<or> (\<exists>s s'. deserializeChildren ops versions oldAddr oldAddr st = Inr s
            \<and> deserializeChildren ops versions oldAddr result st = Inr s'
            \<and> vectors s oldAddr = vectors s' result
            \<and> calls s = calls s' \<and> objects s = objects s')" .
qed

theorem deserializeChildren_contract_witness:
  "\<exists>st'. deserializeChildren (exampleOwner False)
       [\<lparr>ident = 2, objectVersion = 12\<rparr>, \<lparr>ident = 0, objectVersion = 0\<rparr>,
        \<lparr>ident = 4, objectVersion = 14\<rparr>, \<lparr>ident = 1, objectVersion = 11\<rparr>]
       0 0 exampleChildren = Inr st'
     \<and> vectors st' 0 = [Some 1, None, Some 3, Some 0]
     \<and> calls st' = [Sync 1 12, Create 3, MapObject 3 \<lparr>ident = 4, objectVersion = 14\<rparr>,
                     Sync 0 11, UnmapObject 2, Release 2]
     \<and> length (vectors st' 0) = 4
     \<and> slotContract (exampleOwner False) exampleChildren [Some 0, Some 1, Some 2]
          [Some 1, None] \<lparr>ident = 4, objectVersion = 14\<rparr> (Some 3)"
proof -
  let ?versions = "[\<lparr>ident = 2, objectVersion = 12\<rparr>, \<lparr>ident = 0, objectVersion = 0\<rparr>,
        \<lparr>ident = 4, objectVersion = 14\<rparr>, \<lparr>ident = 1, objectVersion = 11\<rparr>]"
  have old: "vectors exampleChildren 0 = [Some 0, Some 1, Some 2]"
    by (simp add: exampleChildren_def)
  have fresh: "\<forall>c. Some c \<in> set (vectors exampleChildren 0) \<longrightarrow> c < nextObject exampleChildren"
    unfolding old by (auto simp: exampleChildren_def)
  have dist: "distinct [x \<leftarrow> vectors exampleChildren 0. x \<noteq> None]"
    unfolding old by simp
  note contract = deserializeChildren_contract [OF fresh, of ?versions "exampleOwner False" 0]
  have valid: "\<forall>x \<in> set (vectors exampleChildren 0). \<exists>c. x = Some c \<and> objects exampleChildren c \<noteq> None"
    unfolding old by (simp add: exampleChildren_def)
  have ids: "childIDs exampleChildren (vectors exampleChildren 0) = [1, 2, 3]"
    unfolding old by (simp add: childIDs_def childID_def map_filter_simps exampleChildren_def)
  have "unmatchedVersions [1, 2, 3] ?versions = [\<lparr>ident = 4, objectVersion = 14\<rparr>]"
    by (simp add: ZERO_def)
  with ids have ok: "\<forall>v \<in> set (unmatchedVersions (childIDs exampleChildren (vectors exampleChildren 0))
                    ?versions).
          \<not> ownerIsMaster (exampleOwner False) \<and> mapObjectOK (exampleOwner False) v"
    by (simp add: exampleOwner_def)
  from contract [THEN conjunct1, THEN mp, OF valid]
  have "\<exists>st'. deserializeChildren (exampleOwner False) ?versions 0 0 exampleChildren = Inr st'"
    unfolding if_P [OF ok] .
  then obtain st' where
    run: "deserializeChildren (exampleOwner False) ?versions 0 0 exampleChildren = Inr st'"
    ..
  have eval: "deserializeChildren (exampleOwner False) ?versions 0 0 exampleChildren =
     Inr \<lparr>objects = [0 \<mapsto> \<lparr>getID = 1, isAttached = True, isMaster = False\<rparr>,
                      1 \<mapsto> \<lparr>getID = 2, isAttached = True, isMaster = False\<rparr>,
                      2 \<mapsto> \<lparr>getID = 3, isAttached = False, isMaster = False\<rparr>,
                      3 \<mapsto> \<lparr>getID = 4, isAttached = True, isMaster = False\<rparr>],
           nextObject = 4,
           vectors = (\<lambda>v. if v = 0 then [Some 0, Some 1, Some 2] else [])
                       (0 := [Some 1, None, Some 3, Some 0]),
           calls = [Sync 1 12, Create 3, MapObject 3 \<lparr>ident = 4, objectVersion = 14\<rparr>,
                    Sync 0 11, UnmapObject 2, Release 2]\<rparr>"
    by (simp add: deserializeChildren_def exampleChildren_def exampleOwner_def ZERO_def
          push_back_def call_def create_def mapObject_def unmapObject_def Let_def fun_upd_twist)
  from run eval have vec: "vectors st' 0 = [Some 1, None, Some 3, Some 0]"
    and cs: "calls st' = [Sync 1 12, Create 3, MapObject 3 \<lparr>ident = 4, objectVersion = 14\<rparr>,
                     Sync 0 11, UnmapObject 2, Release 2]"
    by auto
  note after = contract [THEN conjunct2, THEN conjunct1, rule_format, OF run]
  from after have len: "length (vectors st' 0) = length ?versions"
    by (rule conjunct1)
  from after [THEN conjunct2, THEN conjunct2, THEN mp, OF dist]
  have slots: "\<forall>i < length ?versions.
             slotContract (exampleOwner False) exampleChildren (vectors exampleChildren 0)
               (take i (vectors st' 0)) (?versions ! i) (vectors st' 0 ! i)"
    by (rule conjunct1)
  from slots [rule_format, of 2] vec old
  have "slotContract (exampleOwner False) exampleChildren [Some 0, Some 1, Some 2]
          [Some 1, None] \<lparr>ident = 4, objectVersion = 14\<rparr> (Some 3)"
    by simp
  with run vec cs len show ?thesis by simp
qed


text \<open>
  C2, as stated, fails on a master owner: the version list names the identifier 4,
  which no old child has. The function calls \<open>create\<close> and then fails the assertion
  \<^verbatim>\<open>LBASSERT( !object->isMaster( ))\<close>; no child is mapped and no result is produced.
\<close>

theorem deserializeChildren_master_unmatched:
  "deserializeChildren (exampleOwner True) [\<lparr>ident = 4, objectVersion = 14\<rparr>]
     0 0 exampleChildren = Inl AssertFailed"
  by (simp add: deserializeChildren_def exampleChildren_def exampleOwner_def ZERO_def
        create_def Let_def)

text \<open>
  A master owner whose version list names old children only: the children are synced
  to HEAD, and the child left over is unmapped and released.
\<close>

lemma deserializeChildren_master_matched:
  "\<exists>st'. deserializeChildren (exampleOwner True)
       [\<lparr>ident = 3, objectVersion = 13\<rparr>, \<lparr>ident = 1, objectVersion = 11\<rparr>]
       0 0 exampleChildren = Inr st'
     \<and> vectors st' 0 = [Some 2, Some 0]
     \<and> calls st' = [Sync 2 0xFFFFFFFFFFFFFFFF, Sync 0 0xFFFFFFFFFFFFFFFF,
                     UnmapObject 1, Release 1]"
  by (simp add: deserializeChildren_def exampleChildren_def exampleOwner_def ZERO_def
        push_back_def call_def create_def mapObject_def unmapObject_def Let_def)

text \<open>
  An identifier that comes twice: the first entry takes the old child, the second
  finds no child left with this identifier and creates one.
\<close>

lemma deserializeChildren_repeated_id:
  "\<exists>st'. deserializeChildren (exampleOwner False)
       [\<lparr>ident = 1, objectVersion = 11\<rparr>, \<lparr>ident = 1, objectVersion = 21\<rparr>]
       0 0 exampleChildren = Inr st'
     \<and> vectors st' 0 = [Some 0, Some 3]
     \<and> calls st' = [Sync 0 11, Create 3, MapObject 3 \<lparr>ident = 1, objectVersion = 21\<rparr>,
                     UnmapObject 2, Release 2, UnmapObject 1, Release 1]"
  by (simp add: deserializeChildren_def exampleChildren_def exampleOwner_def ZERO_def
        push_back_def call_def create_def mapObject_def unmapObject_def Let_def)

text \<open>
  A child that stands twice in the old vector is matched once; the copy left over is
  removed at the end, so the child is unmapped and released although it is in the
  result.
\<close>

lemma deserializeChildren_child_twice:
  "\<exists>st'. deserializeChildren (exampleOwner False) [\<lparr>ident = 1, objectVersion = 11\<rparr>]
       0 0 (exampleChildren\<lparr>vectors := (\<lambda>v. [Some 0, Some 0])\<rparr>) = Inr st'
     \<and> vectors st' 0 = [Some 0]
     \<and> calls st' = [Sync 0 11, UnmapObject 0, Release 0]"
  by (simp add: deserializeChildren_def exampleChildren_def exampleOwner_def ZERO_def
        push_back_def call_def create_def mapObject_def unmapObject_def Let_def)

text \<open>
  A null pointer in the old vector that the search reaches before a match is
  dereferenced by the finder (\<^verbatim>\<open>candidate->getID()\<close>), although the loop over the
  removed children skips null pointers.
\<close>

lemma deserializeChildren_null_first:
  assumes "vectors st oldAddr = None # rest" and "ident v \<noteq> ZERO"
  shows "deserializeChildren ops (v # versions) oldAddr result st = Inl NullDeref"
  using assms by (simp add: deserializeChildren_def Let_def)

text \<open>
  The same with the children of the scenario: the null pointer stands before the child
  A, whose identifier the version list names.
\<close>

lemma deserializeChildren_null_candidate:
  "deserializeChildren (exampleOwner False) [\<lparr>ident = 1, objectVersion = 11\<rparr>]
     0 0 (exampleChildren\<lparr>vectors := (\<lambda>v. [None, Some 0])\<rparr>) = Inl NullDeref"
  by (simp add: deserializeChildren_def exampleChildren_def exampleOwner_def ZERO_def Let_def)

end
